theory Spec2Isabelle
  imports Complex_Main "HOL-Library.Sublist" "HOL-Library.AList"
begin

section \<open>Strings as the matchers use them\<close>

text \<open>
  JavaScript strings are modelled as \<^typ>\<open>string\<close> (a list of characters).
  \<open>startsWith\<close>, \<open>endsWith\<close> and \<open>str_includes\<close> are
  \<^verbatim>\<open>String.prototype.startsWith\<close>, \<^verbatim>\<open>endsWith\<close> and \<^verbatim>\<open>includes\<close>.
\<close>

definition startsWith :: "string \<Rightarrow> string \<Rightarrow> bool" where
  "startsWith s p = (take (length p) s = p)"

definition endsWith :: "string \<Rightarrow> string \<Rightarrow> bool" where
  "endsWith s p = (length p \<le> length s \<and> drop (length s - length p) s = p)"

fun str_includes :: "string \<Rightarrow> string \<Rightarrow> bool" where
  "str_includes [] p = (p = [])"
| "str_includes (x # xs) p = (startsWith (x # xs) p \<or> str_includes xs p)"

text \<open>\<^verbatim>\<open>pattern.replace(/\/$/, '')\<close>: one trailing slash is removed, if there is one.\<close>

definition strip_slash :: "string \<Rightarrow> string" where
  "strip_slash p = (if endsWith p ''/'' then butlast p else p)"

text \<open>
  \<^verbatim>\<open>s.replace(/lit/g, rep)\<close> for a regular expression that is one literal string
  (\<^verbatim>\<open>/\./g\<close>, \<^verbatim>\<open>/\*\*/g\<close>, \<^verbatim>\<open>/\*/g\<close>, \<^verbatim>\<open>/\?/g\<close>): the occurrences are
  replaced from left to right, without overlap.
\<close>

function replaceAll :: "string \<Rightarrow> string \<Rightarrow> string \<Rightarrow> string" where
  "replaceAll lit rep [] = []"
| "replaceAll lit rep (x # xs) =
     (if lit \<noteq> [] \<and> startsWith (x # xs) lit
      then rep @ replaceAll lit rep (drop (length lit) (x # xs))
      else x # replaceAll lit rep xs)"
  by pat_completeness auto
termination
  by (relation "measure (\<lambda>(lit, rep, s). length s)") auto

text \<open>
  \<^verbatim>\<open>path.basename\<close> of Node's \<^verbatim>\<open>path\<close> module (POSIX flavour): trailing
  slashes are ignored and the last segment is returned.
\<close>

definition basename :: "string \<Rightarrow> string" where
  "basename p =
     rev (takeWhile (\<lambda>c. c \<noteq> CHR ''/'') (dropWhile (\<lambda>c. c = CHR ''/'') (rev p)))"

section \<open>The fragment of regular expressions the glob translation produces\<close>

text \<open>
  The matchers build the source text of a regular expression and hand it to
  \<^verbatim>\<open>new RegExp\<close>. The source texts they build from patterns of plain characters,
  dots, stars and question marks use: literal characters, an escaped syntax
  character, \<^verbatim>\<open>.\<close>, \<^verbatim>\<open>[^/]\<close>, a star after one of these, \<^verbatim>\<open>^\<close>, \<^verbatim>\<open>$\<close> and the
  group \<^verbatim>\<open>(^|/)\<close>. A pattern may also bring a bracket expression such as
  \<^verbatim>\<open>[cod]\<close> or \<^verbatim>\<open>[^a-z]\<close>. \<open>rx_parse\<close> reads exactly this fragment; \<open>None\<close>
  stands for a source text outside it (among them every text \<^verbatim>\<open>new RegExp\<close>
  rejects, where the matcher throws).
\<close>

datatype rx_class = CLit char | CDot | CNotSlash | CSet bool "(char \<times> char) list"

datatype rx_item = One rx_class | Many rx_class | Bol | Eol | BolOrSlash

definition backslash :: char where
  "backslash = CHR 0x5C"

definition syntax_char :: "char \<Rightarrow> bool" where
  "syntax_char c = (c \<in> set ''^$.*+?()[]{}|'' \<or> c = backslash)"

definition line_terminator :: "char \<Rightarrow> bool" where
  "line_terminator c = (c = CHR 0x0A \<or> c = CHR 0x0D)"

definition in_range :: "char \<Rightarrow> char \<times> char \<Rightarrow> bool" where
  "in_range c r = ((of_char (fst r) :: nat) \<le> of_char c \<and> (of_char c :: nat) \<le> of_char (snd r))"

fun class_ok :: "rx_class \<Rightarrow> char \<Rightarrow> bool" where
  "class_ok (CLit a) c = (c = a)"
| "class_ok CDot c = (\<not> line_terminator c)"
| "class_ok CNotSlash c = (c \<noteq> CHR ''/'')"
| "class_ok (CSet negated ranges) c = (negated \<noteq> (\<exists>r \<in> set ranges. in_range c r))"

text \<open>
  A bracket expression runs from \<^verbatim>\<open>[\<close> or \<^verbatim>\<open>[^\<close> to the next \<^verbatim>\<open>]\<close>. Between them
  stand single characters, ranges \<^verbatim>\<open>a-z\<close> in ascending order, and an escaped
  syntax character; a dash that is not between two characters stands for itself.
  \<open>set_ranges\<close> reads the text between the brackets.
\<close>

definition escapable :: "char \<Rightarrow> bool" where
  "escapable e = (syntax_char e \<or> e = CHR ''/'' \<or> e = CHR ''-'')"

fun set_ranges :: "string \<Rightarrow> (char \<times> char) list option" where
  "set_ranges [] = Some []"
| "set_ranges [c] = (if c = backslash then None else Some [(c, c)])"
| "set_ranges [c, d] =
     (if c = backslash then (if escapable d then Some [(d, d)] else None)
      else if d = backslash then None
      else Some [(c, c), (d, d)])"
| "set_ranges (c # d # e # r) =
     (if c = backslash then
        (if escapable d \<and> e \<noteq> CHR ''-'' then map_option ((#) (d, d)) (set_ranges (e # r))
         else None)
      else if d = CHR ''-'' then
        (if e \<noteq> backslash \<and> (of_char c :: nat) \<le> of_char e
         then map_option ((#) (c, e)) (set_ranges r)
         else None)
      else map_option ((#) (c, c)) (set_ranges (d # e # r)))"

definition rx_bracket :: "string \<Rightarrow> (rx_class \<times> string) option" where
  "rx_bracket cs =
     (let negated = startsWith cs ''^'';
          inner = (if negated then tl cs else cs);
          body = takeWhile (\<lambda>x. x \<noteq> CHR '']'') inner;
          rest = dropWhile (\<lambda>x. x \<noteq> CHR '']'') inner
      in if rest = [] then None
         else map_option (\<lambda>ranges. (CSet negated ranges, tl rest)) (set_ranges body))"

lemma rx_bracket_shorter: "rx_bracket cs = Some (k, r) \<Longrightarrow> length r \<le> length cs"
proof -
  assume a: "rx_bracket cs = Some (k, r)"
  define inner where "inner = (if startsWith cs ''^'' then tl cs else cs)"
  define rest where "rest = dropWhile (\<lambda>x. x \<noteq> CHR '']'') inner"
  have "r = tl rest"
    using a by (auto simp: rx_bracket_def Let_def inner_def rest_def split: if_splits)
  moreover have "length rest \<le> length inner"
    unfolding rest_def by (rule length_dropWhile_le)
  moreover have "length inner \<le> length cs"
    by (simp add: inner_def)
  ultimately show ?thesis
    by simp
qed

fun rx_atom :: "string \<Rightarrow> (rx_class \<times> string) option" where
  "rx_atom [] = None"
| "rx_atom (c # cs) =
     (if c = backslash then
        (case cs of [] \<Rightarrow> None
         | e # r \<Rightarrow> if syntax_char e \<or> e = CHR ''/'' then Some (CLit e, r) else None)
      else if c = CHR ''.'' then Some (CDot, cs)
      else if startsWith (c # cs) ''[^/]'' then Some (CNotSlash, drop 3 cs)
      else if c = CHR ''['' then rx_bracket cs
      else if syntax_char c then None
      else Some (CLit c, cs))"

definition quantifier_char :: "char \<Rightarrow> bool" where
  "quantifier_char c = (c \<in> set ''*+?{'')"

lemma rx_atom_shorter: "rx_atom s = Some (k, r) \<Longrightarrow> length r < length s"
  by (cases s) (auto split: if_splits list.splits dest!: rx_bracket_shorter)

function rx_parse :: "string \<Rightarrow> rx_item list option" where
  "rx_parse [] = Some []"
| "rx_parse (c # cs) =
     (if c = CHR ''^'' then map_option ((#) Bol) (rx_parse cs)
      else if c = CHR ''$'' then map_option ((#) Eol) (rx_parse cs)
      else if startsWith (c # cs) ''(^|/)'' then map_option ((#) BolOrSlash) (rx_parse (drop 4 cs))
      else (case rx_atom (c # cs) of
              None \<Rightarrow> None
            | Some (k, r) \<Rightarrow>
                (case r of
                   [] \<Rightarrow> Some [One k]
                 | q # r' \<Rightarrow>
                     if q = CHR ''*'' then
                       (case r' of
                          [] \<Rightarrow> Some [Many k]
                        | q' # r'' \<Rightarrow>
                            if quantifier_char q' then None
                            else map_option ((#) (Many k)) (rx_parse r'))
                     else if quantifier_char q then None
                     else map_option ((#) (One k)) (rx_parse r))))"
  by pat_completeness auto
termination
  by (relation "measure length") (auto simp del: rx_atom.simps dest!: rx_atom_shorter)

text \<open>
  Matching at one position; the flag says whether the position is the start of the
  input (for \<^verbatim>\<open>^\<close>). A match need not reach the end of the input unless \<^verbatim>\<open>$\<close>
  asks for it.
\<close>

fun rx_match_here :: "rx_item list \<Rightarrow> bool \<Rightarrow> string \<Rightarrow> bool" where
  "rx_match_here [] st s = True"
| "rx_match_here (One k # r) st [] = False"
| "rx_match_here (One k # r) st (c # cs) = (class_ok k c \<and> rx_match_here r False cs)"
| "rx_match_here (Many k # r) st [] = rx_match_here r st []"
| "rx_match_here (Many k # r) st (c # cs) =
     (rx_match_here r st (c # cs) \<or> (class_ok k c \<and> rx_match_here (Many k # r) False cs))"
| "rx_match_here (Bol # r) st s = (st \<and> rx_match_here r st s)"
| "rx_match_here (Eol # r) st s = (s = [] \<and> rx_match_here r st s)"
| "rx_match_here (BolOrSlash # r) st [] = (st \<and> rx_match_here r st [])"
| "rx_match_here (BolOrSlash # r) st (c # cs) =
     ((st \<and> rx_match_here r st (c # cs)) \<or> (c = CHR ''/'' \<and> rx_match_here r False cs))"

text \<open>
  \<^verbatim>\<open>new RegExp(src)\<close> is \<open>rx_parse src\<close>, and \<^verbatim>\<open>regex.test(s)\<close> without flags is
  \<open>regex_test\<close>: a match may start at any position of the input.
\<close>

fun rx_search :: "rx_item list \<Rightarrow> bool \<Rightarrow> string \<Rightarrow> bool" where
  "rx_search r st [] = rx_match_here r st []"
| "rx_search r st (c # cs) = (rx_match_here r st (c # cs) \<or> rx_search r False cs)"

definition regex_test :: "rx_item list \<Rightarrow> string \<Rightarrow> bool" where
  "regex_test r s = rx_search r True s"

section \<open>The three matchers\<close>

text \<open>
  \<^verbatim>\<open>FileWatcher.matchesPattern\<close>. The result is \<open>None\<close> where the glob branch
  builds a regular expression outside the modelled fragment.
\<close>

definition FW_matchesPattern :: "string \<Rightarrow> string \<Rightarrow> string \<Rightarrow> bool option" where
  "FW_matchesPattern fullPath fileName pattern =
     (let normalizedPattern = strip_slash pattern in
      if fileName = normalizedPattern then Some True
      else if normalizedPattern = ''.env'' \<and> (fileName = ''.env'' \<or> startsWith fileName ''.env.'')
        then Some True
      else if str_includes fullPath (''/'' @ normalizedPattern @ ''/'') then Some True
      else if startsWith fullPath (normalizedPattern @ ''/'') then Some True
      else if str_includes pattern ''*'' then
        (let regexPattern =
               replaceAll ''*'' ''[^/]*''
                 (replaceAll ''**'' ''.*''
                   (replaceAll ''.'' [backslash, CHR ''.''] pattern))
         in case rx_parse (''(^|/)'' @ regexPattern @ ''$'') of
              None \<Rightarrow> None
            | Some regex \<Rightarrow> Some (regex_test regex fullPath \<or> regex_test regex fileName))
      else Some False)"

text \<open>\<^verbatim>\<open>CommitScanner.globToRegex\<close> and \<^verbatim>\<open>CommitScanner.matchesPattern\<close>.\<close>

definition CS_globToRegex :: "string \<Rightarrow> string" where
  "CS_globToRegex glob =
     ''^'' @ replaceAll ''?'' ''.''
              (replaceAll ''*'' ''[^/]*''
                (replaceAll ''**'' ''.*''
                  (replaceAll ''.'' [backslash, CHR ''.''] glob))) @ ''$''"

definition CS_matchesPattern :: "string \<Rightarrow> string \<Rightarrow> string \<Rightarrow> bool option" where
  "CS_matchesPattern fullPath fileName pattern =
     (let normalizedPattern = strip_slash pattern in
      if fileName = normalizedPattern then Some True
      else if fullPath = normalizedPattern then Some True
      else if startsWith fullPath (normalizedPattern @ ''/'') then Some True
      else if str_includes fullPath (''/'' @ normalizedPattern @ ''/'') then Some True
      else if str_includes pattern ''*'' then
        (let regexPattern = CS_globToRegex pattern
         in case rx_parse regexPattern of
              None \<Rightarrow> None
            | Some regex \<Rightarrow> Some (regex_test regex fileName \<or> regex_test regex fullPath))
      else if pattern = ''.env'' \<and> (fileName = ''.env'' \<or> startsWith fileName ''.env.'')
        then Some True
      else Some False)"

text \<open>\<^verbatim>\<open>RuleEngine.globToRegex\<close> and \<^verbatim>\<open>RuleEngine.matchesPattern\<close>.\<close>

definition RE_globToRegex :: "string \<Rightarrow> string" where
  "RE_globToRegex glob =
     replaceAll ''?'' ''.''
       (replaceAll ''*'' ''.*''
         (replaceAll ''.'' [backslash, CHR ''.''] glob))"

definition RE_matchesPattern :: "string \<Rightarrow> string \<Rightarrow> string \<Rightarrow> bool option" where
  "RE_matchesPattern fullPath fileName pattern =
     (let normalizedPattern = strip_slash pattern in
      if fileName = normalizedPattern then Some True
      else if str_includes fullPath normalizedPattern then Some True
      else if str_includes pattern ''*'' then
        (let regexPattern = RE_globToRegex pattern
         in case rx_parse regexPattern of
              None \<Rightarrow> None
            | Some regex \<Rightarrow> Some (regex_test regex fileName \<or> regex_test regex fullPath))
      else if endsWith pattern ''/'' then
        (let dirName = butlast pattern
         in Some (str_includes fullPath (''/'' @ dirName @ ''/'') \<or> startsWith fullPath (dirName @ ''/'')))
      else Some False)"

text \<open>
  What the three translations make of one character of a pattern in which no two
  stars are adjacent.
\<close>

definition FW_globChar :: "char \<Rightarrow> string" where
  "FW_globChar c =
     (if c = CHR ''.'' then [backslash, CHR ''.'']
      else if c = CHR ''*'' then ''[^/]*''
      else [c])"

definition CS_globChar :: "char \<Rightarrow> string" where
  "CS_globChar c =
     (if c = CHR ''.'' then [backslash, CHR ''.'']
      else if c = CHR ''*'' then ''[^/]*''
      else if c = CHR ''?'' then ''.''
      else [c])"

definition RE_globChar :: "char \<Rightarrow> string" where
  "RE_globChar c =
     (if c = CHR ''.'' then [backslash, CHR ''.'']
      else if c = CHR ''*'' then ''.*''
      else if c = CHR ''?'' then ''.''
      else [c])"

text \<open>
  What the expressions match, said without expressions. \<open>segmentGlob\<close> matches a
  whole input against a pattern in which a star stands for any run of characters
  other than the slash, a question mark (when the flag is set) for any character
  that does not end a line, and every other character for itself. \<open>looseGlob\<close>
  matches a start of the input against a pattern in which a star stands for any
  run of characters that do not end a line. \<open>globChars\<close> says that a pattern is made
  of characters without a meaning in regular expressions, dots, stars and (when
  the flag is set) question marks.
\<close>

definition globChars :: "bool \<Rightarrow> string \<Rightarrow> bool" where
  "globChars qm p =
     (\<forall>c \<in> set p. \<not> syntax_char c \<or> c = CHR ''.'' \<or> c = CHR ''*'' \<or> (qm \<and> c = CHR ''?''))"

fun segmentGlob :: "bool \<Rightarrow> string \<Rightarrow> string \<Rightarrow> bool" where
  "segmentGlob qm [] s = (s = [])"
| "segmentGlob qm (c # p) [] = (c = CHR ''*'' \<and> segmentGlob qm p [])"
| "segmentGlob qm (c # p) (x # xs) =
     (if c = CHR ''*'' then segmentGlob qm p (x # xs) \<or> (x \<noteq> CHR ''/'' \<and> segmentGlob qm (c # p) xs)
      else if qm \<and> c = CHR ''?'' then \<not> line_terminator x \<and> segmentGlob qm p xs
      else c = x \<and> segmentGlob qm p xs)"

fun looseGlob :: "string \<Rightarrow> string \<Rightarrow> bool" where
  "looseGlob [] s = True"
| "looseGlob (c # p) [] = (c = CHR ''*'' \<and> looseGlob p [])"
| "looseGlob (c # p) (x # xs) =
     (if c = CHR ''*'' then looseGlob p (x # xs) \<or> (\<not> line_terminator x \<and> looseGlob (c # p) xs)
      else if c = CHR ''?'' then \<not> line_terminator x \<and> looseGlob p xs
      else c = x \<and> looseGlob p xs)"

fun afterSlashes :: "string \<Rightarrow> string list" where
  "afterSlashes [] = []"
| "afterSlashes (x # xs) = (if x = CHR ''/'' then xs # afterSlashes xs else afterSlashes xs)"

fun tails :: "string \<Rightarrow> string list" where
  "tails [] = [[]]"
| "tails (x # xs) = (x # xs) # tails xs"

text \<open>
  The parsed form of what the translations make of one character: \<open>segItem\<close> for
  the scanner (flag set) and the watcher, \<open>looseItem\<close> for the rule engine; and
  \<open>segChar\<close>, the scanner's or the watcher's translation by the flag.
\<close>

definition segItem :: "bool \<Rightarrow> char \<Rightarrow> rx_item" where
  "segItem qm c =
     (if c = CHR ''.'' then One (CLit (CHR ''.''))
      else if c = CHR ''*'' then Many CNotSlash
      else if qm \<and> c = CHR ''?'' then One CDot
      else One (CLit c))"

definition looseItem :: "char \<Rightarrow> rx_item" where
  "looseItem c =
     (if c = CHR ''.'' then One (CLit (CHR ''.''))
      else if c = CHR ''*'' then Many CDot
      else if c = CHR ''?'' then One CDot
      else One (CLit c))"

definition segChar :: "bool \<Rightarrow> char \<Rightarrow> string" where
  "segChar qm c = (if qm then CS_globChar c else FW_globChar c)"

text \<open>
  What the scanner's translation (flag set) and the watcher's make of a whole
  pattern, read from the left: two adjacent stars become \<^verbatim>\<open>.[^/]*\<close>, since the
  star of the \<^verbatim>\<open>.*\<close> that replaces them is replaced again; every other character
  becomes what \<open>segChar\<close> makes of it.
\<close>

fun segBody :: "bool \<Rightarrow> string \<Rightarrow> string" where
  "segBody qm [] = []"
| "segBody qm [c] = segChar qm c"
| "segBody qm (c # d # cs) =
     (if c = CHR ''*'' \<and> d = CHR ''*'' then ''.[^/]*'' @ segBody qm cs
      else segChar qm c @ segBody qm (d # cs))"

text \<open>
  The glob translation as the specification words it, for comparison: one pass over
  the pattern in which a dot is escaped, \<^verbatim>\<open>**\<close> becomes \<^verbatim>\<open>.*\<close>, a single \<^verbatim>\<open>*\<close>
  becomes \<^verbatim>\<open>[^/]*\<close>, and the result is anchored at both ends.
\<close>

fun spec_glob_body :: "string \<Rightarrow> string" where
  "spec_glob_body [] = []"
| "spec_glob_body [c] =
     (if c = CHR ''*'' then ''[^/]*'' else if c = CHR ''.'' then [backslash, CHR ''.''] else [c])"
| "spec_glob_body (c # d # cs) =
     (if c = CHR ''*'' \<and> d = CHR ''*'' then ''.*'' @ spec_glob_body cs
      else if c = CHR ''*'' then ''[^/]*'' @ spec_glob_body (d # cs)
      else if c = CHR ''.'' then [backslash, CHR ''.''] @ spec_glob_body (d # cs)
      else c # spec_glob_body (d # cs))"

definition spec_globToRegex :: "string \<Rightarrow> string" where
  "spec_globToRegex glob = ''^'' @ spec_glob_body glob @ ''$''"

definition spec_glob_matches :: "string \<Rightarrow> string \<Rightarrow> string \<Rightarrow> bool option" where
  "spec_glob_matches fullPath fileName pattern =
     (case rx_parse (spec_globToRegex pattern) of
        None \<Rightarrow> None
      | Some regex \<Rightarrow> Some (regex_test regex fileName \<or> regex_test regex fullPath))"

section \<open>The ignore file\<close>

datatype RuleSeverity = Critical | Recommended | Optional

record GitIgnoreRule =
  pattern :: string
  severity :: RuleSeverity
  reason :: string

text \<open>
  \<^verbatim>\<open>String.prototype.trim\<close> on the white space of the first 256 code points, and
  \<^verbatim>\<open>split('\n')\<close> and \<^verbatim>\<open>join('\n')\<close>.
\<close>

definition js_space :: "char \<Rightarrow> bool" where
  "js_space c = (c \<in> set [CHR 0x09, CHR 0x0A, CHR 0x0B, CHR 0x0C, CHR 0x0D, CHR 0x20, CHR 0xA0])"

definition trim :: "string \<Rightarrow> string" where
  "trim s = rev (dropWhile js_space (rev (dropWhile js_space s)))"

fun split_on :: "char \<Rightarrow> string \<Rightarrow> string list" where
  "split_on sep [] = [[]]"
| "split_on sep (c # cs) =
     (if c = sep then [] # split_on sep cs
      else (case split_on sep cs of [] \<Rightarrow> [[c]] | l # ls \<Rightarrow> (c # l) # ls))"

fun join_nl :: "string list \<Rightarrow> string" where
  "join_nl [] = []"
| "join_nl [l] = l"
| "join_nl (l # m # ls) = l @ [CHR 0x0A] @ join_nl (m # ls)"

text \<open>\<^verbatim>\<open>GitIgnoreHandler.normalizePattern\<close>: trim, then drop every trailing slash.\<close>

definition normalizePattern :: "string \<Rightarrow> string" where
  "normalizePattern p = rev (dropWhile (\<lambda>c. c = CHR ''/'') (rev (trim p)))"

text \<open>
  The ignore file is \<open>None\<close> when it is absent or unreadable (\<^verbatim>\<open>read\<close> returns
  \<^verbatim>\<open>null\<close>), and its content otherwise. \<^verbatim>\<open>getExistingPatterns\<close> returns a set.
\<close>

definition getExistingPatterns :: "string option \<Rightarrow> string set" where
  "getExistingPatterns file =
     (case file of
        None \<Rightarrow> {}
      | Some content \<Rightarrow>
          if content = [] then {}
          else set (map normalizePattern
                 (filter (\<lambda>trimmed. trimmed \<noteq> [] \<and> \<not> startsWith trimmed ''#'')
                    (map trim (split_on (CHR 0x0A) content)))))"

definition findMissingPatterns :: "string option \<Rightarrow> GitIgnoreRule list \<Rightarrow> GitIgnoreRule list" where
  "findMissingPatterns file rules =
     filter (\<lambda>rule. normalizePattern (pattern rule) \<notin> getExistingPatterns file) rules"

text \<open>
  What \<^verbatim>\<open>vscode.workspace.fs.writeFile\<close> does is the environment's choice: it stores
  the content, or it throws. A thrown value is an \<^verbatim>\<open>Error\<close> with a message, or
  something else.
\<close>

datatype thrown = JsError string | NonError

datatype write_outcome = WriteOk | WriteThrows thrown

definition writeFile :: "write_outcome \<Rightarrow> string \<Rightarrow> string option \<Rightarrow> thrown + string option" where
  "writeFile w newContent file =
     (case w of WriteOk \<Rightarrow> Inr (Some newContent) | WriteThrows e \<Rightarrow> Inl e)"

text \<open>
  The result record; its \<^verbatim>\<open>filePath\<close> field, always the path of the ignore file,
  is left out.
\<close>

record GitIgnoreModificationResult =
  success :: bool
  addedPatterns :: "string list"
  existingPatterns :: "string list"
  error :: "string option"

definition headerLine :: "string option \<Rightarrow> string" where
  "headerLine frameworkName =
     (case frameworkName of
        None \<Rightarrow> ''# Added by GitGuard''
      | Some n \<Rightarrow> if n = [] then ''# Added by GitGuard''
                  else ''# Added by GitGuard ('' @ n @ '')'')"

definition ruleLines :: "GitIgnoreRule \<Rightarrow> string list" where
  "ruleLines rule =
     (if severity rule = Critical then [''# '' @ reason rule] else []) @ [pattern rule]"

text \<open>\<^verbatim>\<open>await this.read(workspaceFolder) || ''\<close>: the content, empty for an absent file.\<close>

definition readOrEmpty :: "string option \<Rightarrow> string" where
  "readOrEmpty file = (case file of None \<Rightarrow> [] | Some c \<Rightarrow> c)"

text \<open>The lines that \<^verbatim>\<open>addPatterns\<close> collects in \<^verbatim>\<open>newLines\<close>, on their own.\<close>

definition newLinesFor :: "string option \<Rightarrow> GitIgnoreRule list \<Rightarrow> string option \<Rightarrow> string list" where
  "newLinesFor file toAdd frameworkName =
     (if trim (if readOrEmpty file \<noteq> [] \<and> \<not> endsWith (readOrEmpty file) [CHR 0x0A]
               then readOrEmpty file @ [CHR 0x0A] else readOrEmpty file) \<noteq> [] then [[]] else [])
     @ [headerLine frameworkName] @ concat (map ruleLines toAdd)"

text \<open>The new content that the \<^verbatim>\<open>try\<close> block of \<^verbatim>\<open>addPatterns\<close> builds.\<close>

definition newContentFor :: "string option \<Rightarrow> GitIgnoreRule list \<Rightarrow> string option \<Rightarrow> string" where
  "newContentFor file toAdd frameworkName =
     (let content0 = readOrEmpty file;
          currentContent =
            (if content0 \<noteq> [] \<and> \<not> endsWith content0 [CHR 0x0A]
             then content0 @ [CHR 0x0A] else content0);
          newLines =
            (if trim currentContent \<noteq> [] then [[]] else [])
            @ [headerLine frameworkName]
            @ concat (map ruleLines toAdd)
      in currentContent @ join_nl newLines @ [CHR 0x0A])"

text \<open>
  \<^verbatim>\<open>GitIgnoreHandler.addPatterns\<close>: the write outcome and the file go in, the result
  and the file come out. The \<^verbatim>\<open>catch\<close> clause is the \<open>Inl\<close> branch.
\<close>

definition addPatterns ::
  "write_outcome \<Rightarrow> string option \<Rightarrow> GitIgnoreRule list \<Rightarrow> string option
     \<Rightarrow> GitIgnoreModificationResult \<times> string option" where
  "addPatterns w file rules frameworkName =
     (let existing = getExistingPatterns file;
          toAdd = filter (\<lambda>rule. normalizePattern (pattern rule) \<notin> existing) rules;
          alreadyExists =
            map pattern (filter (\<lambda>rule. normalizePattern (pattern rule) \<in> existing) rules)
      in if toAdd = [] then
           (\<lparr>success = True, addedPatterns = [], existingPatterns = alreadyExists, error = None\<rparr>,
            file)
         else
           (case writeFile w (newContentFor file toAdd frameworkName) file of
              Inr file' \<Rightarrow>
                (\<lparr>success = True, addedPatterns = map pattern toAdd,
                  existingPatterns = alreadyExists, error = None\<rparr>, file')
            | Inl e \<Rightarrow>
                (\<lparr>success = False, addedPatterns = [], existingPatterns = alreadyExists,
                  error = Some (case e of JsError message \<Rightarrow> message
                                | NonError \<Rightarrow> ''Unknown error'')\<rparr>, file)))"


section \<open>The file watcher's debounced queue\<close>

record RiskyFileEvent =
  filePath :: string
  matchedPattern :: string
  rule :: GitIgnoreRule

text \<open>
  The watcher's state: the pending map in insertion order (a JavaScript \<^verbatim>\<open>Map\<close>
  keeps a key's position when its value is overwritten, as \<^const>\<open>AList.update\<close>
  does), the deadline of the armed debounce timer on a logical clock of
  milliseconds (\<open>None\<close> when no timer is armed), and the batches that
  \<^verbatim>\<open>processPendingNotifications\<close> has handed to the notification functions.
\<close>

record FileWatcher =
  pendingNotifications :: "(string \<times> RiskyFileEvent) list"
  debounceTimer :: "nat option"
  flushed :: "RiskyFileEvent list list"

definition debounceDelay :: nat where
  "debounceDelay = 500"

definition newWatcher :: FileWatcher where
  "newWatcher = \<lparr>pendingNotifications = [], debounceTimer = None, flushed = []\<rparr>"

text \<open>\<^verbatim>\<open>queueNotification\<close> at time \<open>now\<close>: the timer is cleared and armed anew.\<close>

definition queueNotification :: "nat \<Rightarrow> RiskyFileEvent \<Rightarrow> FileWatcher \<Rightarrow> FileWatcher" where
  "queueNotification now event w =
     w\<lparr>pendingNotifications := AList.update (filePath event) event (pendingNotifications w),
       debounceTimer := Some (now + debounceDelay)\<rparr>"

definition processPendingNotifications :: "FileWatcher \<Rightarrow> FileWatcher" where
  "processPendingNotifications w =
     (let events = map snd (pendingNotifications w)
      in if events = [] then w\<lparr>pendingNotifications := []\<rparr>
         else w\<lparr>pendingNotifications := [], flushed := flushed w @ [events]\<rparr>)"

text \<open>
  The clock reaches \<open>now\<close>: an armed timer whose deadline has come fires, and its
  callback runs \<^verbatim>\<open>processPendingNotifications\<close>.
\<close>

definition advance :: "nat \<Rightarrow> FileWatcher \<Rightarrow> FileWatcher" where
  "advance now w =
     (case debounceTimer w of
        None \<Rightarrow> w
      | Some deadline \<Rightarrow>
          if deadline \<le> now then processPendingNotifications (w\<lparr>debounceTimer := None\<rparr>)
          else w)"

text \<open>A schedule of qualifying creation events, each with its arrival time.\<close>

fun run :: "(nat \<times> RiskyFileEvent) list \<Rightarrow> FileWatcher \<Rightarrow> FileWatcher" where
  "run [] w = w"
| "run ((t, event) # evs) w = run evs (queueNotification t event (advance t w))"

text \<open>Arrival times in order, each gap shorter than the debounce delay.\<close>

fun burst :: "nat list \<Rightarrow> bool" where
  "burst (a # b # ts) = (a \<le> b \<and> b < a + debounceDelay \<and> burst (b # ts))"
| "burst ts = True"

text \<open>The pending map after the events of a schedule have been upserted in turn.\<close>

definition upsertAll :: "(nat \<times> RiskyFileEvent) list \<Rightarrow> (string \<times> RiskyFileEvent) list \<Rightarrow> (string \<times> RiskyFileEvent) list" where
  "upsertAll evs pending = fold (\<lambda>te. AList.update (filePath (snd te)) (snd te)) evs pending"

text \<open>The event that \<^verbatim>\<open>handleFileCreated\<close> builds for a path that the rule \<^verbatim>\<open>.env\<close> matches.\<close>

definition envEvent :: "string \<Rightarrow> RiskyFileEvent" where
  "envEvent p =
     \<lparr>filePath = p, matchedPattern = ''.env'',
      rule = \<lparr>pattern = ''.env'', severity = Critical, reason = ''Environment secrets''\<rparr>\<rparr>"

section \<open>The rule engine\<close>

datatype RuleCategory = Node | Python | Java

text \<open>
  A detection; \<open>frameworkId\<close> is the field \<^verbatim>\<open>id\<close>, and confidences are rational
  numbers (the code compares them and adds \<^verbatim>\<open>0.05\<close>; rounding is not modelled).
\<close>

record DetectedFramework =
  frameworkId :: string
  name :: string
  detectedAt :: string
  confidence :: rat
  ruleCategory :: RuleCategory

text \<open>
  A rule set, without its descriptive fields. The rule sets themselves are JSON
  files, so the catalogue is a parameter.
\<close>

record RuleSet =
  rules :: "GitIgnoreRule list"
  frameworks :: "(string \<rightharpoonup> GitIgnoreRule list) option"

type_synonym catalogue = "RuleCategory \<rightharpoonup> RuleSet"

definition getRulesForCategory :: "catalogue \<Rightarrow> RuleCategory \<Rightarrow> GitIgnoreRule list" where
  "getRulesForCategory ruleSets category =
     (case ruleSets category of None \<Rightarrow> [] | Some ruleSet \<Rightarrow> rules ruleSet)"

definition getFrameworkRules :: "catalogue \<Rightarrow> RuleCategory \<Rightarrow> string \<Rightarrow> GitIgnoreRule list" where
  "getFrameworkRules ruleSets category fid =
     (case ruleSets category of
        None \<Rightarrow> []
      | Some ruleSet \<Rightarrow>
          (case frameworks ruleSet of
             None \<Rightarrow> []
           | Some fws \<Rightarrow> (case fws fid of None \<Rightarrow> [] | Some rs \<Rightarrow> rs)))"

text \<open>The grouping loop of \<^verbatim>\<open>getRulesForDetections\<close>, on a map in insertion order.\<close>

definition groupStep ::
  "DetectedFramework \<Rightarrow> (RuleCategory \<times> DetectedFramework list) list
     \<Rightarrow> (RuleCategory \<times> DetectedFramework list) list" where
  "groupStep detection byCategory =
     (let existing = (case map_of byCategory (ruleCategory detection) of
                        None \<Rightarrow> [] | Some ds \<Rightarrow> ds)
      in AList.update (ruleCategory detection) (existing @ [detection]) byCategory)"

definition groupByCategory ::
  "DetectedFramework list \<Rightarrow> (RuleCategory \<times> DetectedFramework list) list" where
  "groupByCategory detections = fold groupStep detections []"

text \<open>The inner loops: a rule is pushed unless its pattern has been seen.\<close>

fun addRules ::
  "GitIgnoreRule list \<Rightarrow> GitIgnoreRule list \<times> string set \<Rightarrow> GitIgnoreRule list \<times> string set" where
  "addRules [] st = st"
| "addRules (r # rs) (allRules, seenPatterns) =
     (if pattern r \<in> seenPatterns then addRules rs (allRules, seenPatterns)
      else addRules rs (allRules @ [r], insert (pattern r) seenPatterns))"

definition categoryStep ::
  "catalogue \<Rightarrow> RuleCategory \<times> DetectedFramework list
     \<Rightarrow> GitIgnoreRule list \<times> string set \<Rightarrow> GitIgnoreRule list \<times> string set" where
  "categoryStep ruleSets entry st =
     (case entry of (category, categoryDetections) \<Rightarrow>
        fold (\<lambda>detection. addRules (getFrameworkRules ruleSets category (frameworkId detection)))
          categoryDetections
          (addRules (getRulesForCategory ruleSets category) st))"

definition getRulesForDetections :: "catalogue \<Rightarrow> DetectedFramework list \<Rightarrow> GitIgnoreRule list" where
  "getRulesForDetections ruleSets detections =
     fst (fold (categoryStep ruleSets) (groupByCategory detections) ([], {}))"

text \<open>
  The same in the specification's words: the ecosystems in the order in which they
  first occur among the detections; for each, its base rules and then the rules of
  each of its detected frameworks, in detection order; of these candidates, the
  ones whose pattern no earlier candidate carries.
\<close>

definition ecosystemsPresent :: "DetectedFramework list \<Rightarrow> RuleCategory list" where
  "ecosystemsPresent detections = rev (remdups (rev (map ruleCategory detections)))"

definition ecosystemRules ::
  "catalogue \<Rightarrow> DetectedFramework list \<Rightarrow> RuleCategory \<Rightarrow> GitIgnoreRule list" where
  "ecosystemRules ruleSets detections category =
     getRulesForCategory ruleSets category
     @ concat (map (\<lambda>d. getFrameworkRules ruleSets category (frameworkId d))
                 (filter (\<lambda>d. ruleCategory d = category) detections))"

definition candidateRules :: "catalogue \<Rightarrow> DetectedFramework list \<Rightarrow> GitIgnoreRule list" where
  "candidateRules ruleSets detections =
     concat (map (ecosystemRules ruleSets detections) (ecosystemsPresent detections))"

text \<open>The candidates of the ecosystems that come before a given one.\<close>

definition rulesBefore ::
  "catalogue \<Rightarrow> DetectedFramework list \<Rightarrow> RuleCategory \<Rightarrow> GitIgnoreRule list" where
  "rulesBefore ruleSets detections category =
     concat (map (ecosystemRules ruleSets detections)
               (takeWhile (\<lambda>c. c \<noteq> category) (ecosystemsPresent detections)))"

fun firstSeen :: "GitIgnoreRule list \<Rightarrow> GitIgnoreRule list \<Rightarrow> GitIgnoreRule list" where
  "firstSeen earlier [] = []"
| "firstSeen earlier (r # rs) =
     (if pattern r \<in> pattern ` set earlier then firstSeen (earlier @ [r]) rs
      else r # firstSeen (earlier @ [r]) rs)"

text \<open>A small catalogue and a detection list over it.\<close>

definition sampleCatalogue :: catalogue where
  "sampleCatalogue =
     [Node \<mapsto>
        \<lparr>rules = [\<lparr>pattern = ''node_modules/'', severity = Recommended, reason = ''Dependencies''\<rparr>,
                  \<lparr>pattern = ''.env'', severity = Critical, reason = ''Secrets''\<rparr>],
         frameworks = Some [''nextjs'' \<mapsto>
                  [\<lparr>pattern = ''.next/'', severity = Recommended, reason = ''Build output''\<rparr>,
                   \<lparr>pattern = ''.env'', severity = Optional, reason = ''Next.js environment''\<rparr>,
                   \<lparr>pattern = ''.env.local'', severity = Recommended, reason = ''Local overrides''\<rparr>]]\<rparr>,
      Python \<mapsto>
        \<lparr>rules = [\<lparr>pattern = ''__pycache__/'', severity = Recommended, reason = ''Bytecode''\<rparr>,
                  \<lparr>pattern = ''.env.local'', severity = Critical, reason = ''Local secrets''\<rparr>],
         frameworks = None\<rparr>]"

definition sampleDetections :: "DetectedFramework list" where
  "sampleDetections =
     [\<lparr>frameworkId = ''node'', name = ''Node.js'', detectedAt = ''package.json'',
        confidence = 8 / 10, ruleCategory = Node\<rparr>,
      \<lparr>frameworkId = ''nextjs'', name = ''Next.js'', detectedAt = ''package.json'',
        confidence = 1, ruleCategory = Node\<rparr>,
      \<lparr>frameworkId = ''python'', name = ''Python'', detectedAt = ''requirements.txt'',
        confidence = 8 / 10, ruleCategory = Python\<rparr>]"

section \<open>The detectors\<close>

text \<open>
  \<^verbatim>\<open>NodeDetector.deduplicateDetections\<close>: a map from identifier to detection, in
  insertion order; a detection replaces the stored one when its confidence is
  greater.
\<close>

definition Node_dedupStep ::
  "DetectedFramework \<Rightarrow> (string \<times> DetectedFramework) list \<Rightarrow> (string \<times> DetectedFramework) list" where
  "Node_dedupStep detection byId =
     (case map_of byId (frameworkId detection) of
        None \<Rightarrow> AList.update (frameworkId detection) detection byId
      | Some existing \<Rightarrow>
          if confidence detection > confidence existing
          then AList.update (frameworkId detection) detection byId
          else byId)"

definition Node_deduplicateDetections :: "DetectedFramework list \<Rightarrow> DetectedFramework list" where
  "Node_deduplicateDetections detections = map snd (fold Node_dedupStep detections [])"

text \<open>
  \<^verbatim>\<open>JavaDetector.deduplicateByProximity\<close>: the depth of a detection is the number
  of segments of its path, \<^verbatim>\<open>detectedAt.split(path.sep).length\<close>.
\<close>

definition depth :: "DetectedFramework \<Rightarrow> nat" where
  "depth d = length (split_on (CHR ''/'') (detectedAt d))"

definition Java_dedupStep ::
  "DetectedFramework \<Rightarrow> (string \<times> DetectedFramework) list \<Rightarrow> (string \<times> DetectedFramework) list" where
  "Java_dedupStep detection byId =
     (case map_of byId (frameworkId detection) of
        None \<Rightarrow> AList.update (frameworkId detection) detection byId
      | Some existing \<Rightarrow>
          if depth detection < depth existing
          then AList.update (frameworkId detection) detection byId
          else byId)"

definition Java_deduplicateByProximity :: "DetectedFramework list \<Rightarrow> DetectedFramework list" where
  "Java_deduplicateByProximity detections = map snd (fold Java_dedupStep detections [])"

text \<open>
  Both loops have one shape: per identifier, the detection with the least value of
  a measure is kept, the earlier one among equals. \<open>keptBy\<close> says so of a map
  and the detections read so far.
\<close>

definition keepStep ::
  "(DetectedFramework \<Rightarrow> 'a::linorder) \<Rightarrow> DetectedFramework
     \<Rightarrow> (string \<times> DetectedFramework) list \<Rightarrow> (string \<times> DetectedFramework) list" where
  "keepStep m detection byId =
     (case map_of byId (frameworkId detection) of
        None \<Rightarrow> AList.update (frameworkId detection) detection byId
      | Some existing \<Rightarrow>
          if m detection < m existing
          then AList.update (frameworkId detection) detection byId
          else byId)"

definition keptBy ::
  "(DetectedFramework \<Rightarrow> 'a::linorder) \<Rightarrow> DetectedFramework list
     \<Rightarrow> (string \<times> DetectedFramework) list \<Rightarrow> bool" where
  "keptBy m ds byId \<longleftrightarrow>
     distinct (map fst byId) \<and>
     (\<forall>k v. map_of byId k = Some v \<longrightarrow>
        frameworkId v = k \<and> v \<in> set ds \<and>
        (\<forall>e \<in> set ds. frameworkId e = k \<longrightarrow> m v \<le> m e) \<and>
        find (\<lambda>e. frameworkId e = k \<and> m e = m v) ds = Some v) \<and>
     (\<forall>d \<in> set ds. map_of byId (frameworkId d) \<noteq> None)"

text \<open>
  A confidence is a JavaScript number, an IEEE 754 double. A finite double is given
  by its value, a rational. \<open>binade x\<close> is the exponent of the power of two at or
  below a positive \<open>x\<close>; \<open>ulp x\<close> is the distance between the doubles around \<open>x\<close>
  (52 fraction bits, and the fixed spacing \<^verbatim>\<open>2^-1074\<close> of the subnormal range);
  \<open>roundToDouble\<close> rounds a rational to the nearest double, a tie to the one whose
  last bit is even. It is what a decimal literal such as \<^verbatim>\<open>0.95\<close> denotes, and
  \<open>num_add\<close>, the exact sum rounded, is \<^verbatim>\<open>+\<close> on doubles. Magnitudes are below
  \<^verbatim>\<open>2^1024\<close>: there is no infinity here, and the detector, which adds \<^verbatim>\<open>0.05\<close>
  once to a literal, needs none.
\<close>

function binade :: "rat \<Rightarrow> int" where
  "binade x =
     (if x \<le> 0 then 0
      else if x < 1 then binade (2 * x) - 1
      else if 2 \<le> x then binade (x / 2) + 1
      else 0)"
  by pat_completeness auto
termination
proof (relation "measure (\<lambda>x. if x < 1 then nat \<lfloor>1 / x\<rfloor> + 1 else nat \<lfloor>x\<rfloor>)")
  show "wf (measure (\<lambda>x::rat. if x < 1 then nat \<lfloor>1 / x\<rfloor> + 1 else nat \<lfloor>x\<rfloor>))"
    by simp
next
  fix x :: rat
  assume a: "\<not> x \<le> 0" "x < 1"
  show "(2 * x, x) \<in> measure (\<lambda>x. if x < 1 then nat \<lfloor>1 / x\<rfloor> + 1 else nat \<lfloor>x\<rfloor>)"
  proof (cases "2 * x < 1")
    case True
    have y: "1 / x > 2"
      using a True by (simp add: field_simps)
    have "1 / (2 * x) = (1 / x) / 2"
      by simp
    also have "\<dots> \<le> 1 / x - 1"
      using y by simp
    finally have "\<lfloor>1 / (2 * x)\<rfloor> \<le> \<lfloor>1 / x - 1\<rfloor>"
      by (rule floor_mono)
    then have "\<lfloor>1 / (2 * x)\<rfloor> < \<lfloor>1 / x\<rfloor>"
      by simp
    moreover have "\<lfloor>1 / x\<rfloor> \<ge> 2"
      using y by linarith
    ultimately have "nat \<lfloor>1 / (2 * x)\<rfloor> + 1 < nat \<lfloor>1 / x\<rfloor> + 1"
      by linarith
    then show ?thesis
      using True a by simp
  next
    case False
    have "1 / x > 1"
      using a by (simp add: field_simps)
    then have f: "\<lfloor>1 / x\<rfloor> \<ge> 1"
      by linarith
    have "2 * x < 2"
      using a by simp
    then have "\<lfloor>2 * x\<rfloor> \<le> 1"
      by linarith
    then have "nat \<lfloor>2 * x\<rfloor> < nat \<lfloor>1 / x\<rfloor> + 1"
      using f by linarith
    then show ?thesis
      using False a by simp
  qed
next
  fix x :: rat
  assume a: "\<not> x \<le> 0" "\<not> x < 1" "2 \<le> x"
  have "x / 2 \<le> x - 1"
    using a by simp
  then have "\<lfloor>x / 2\<rfloor> \<le> \<lfloor>x - 1\<rfloor>"
    by (rule floor_mono)
  then have "\<lfloor>x / 2\<rfloor> < \<lfloor>x\<rfloor>"
    by simp
  moreover have "\<lfloor>x\<rfloor> \<ge> 2"
    using a by linarith
  ultimately have "nat \<lfloor>x / 2\<rfloor> < nat \<lfloor>x\<rfloor>"
    by linarith
  then show "(x / 2, x) \<in> measure (\<lambda>x. if x < 1 then nat \<lfloor>1 / x\<rfloor> + 1 else nat \<lfloor>x\<rfloor>)"
    using a by simp
qed

declare binade.simps [simp del]

definition pow2 :: "int \<Rightarrow> rat" where
  "pow2 e = (if 0 \<le> e then 2 ^ nat e else 1 / 2 ^ nat (- e))"

definition roundTiesToEven :: "rat \<Rightarrow> int" where
  "roundTiesToEven x =
     (let f = \<lfloor>x\<rfloor>; r = x - of_int f
      in if r < 1 / 2 then f
         else if 1 / 2 < r then f + 1
         else if even f then f else f + 1)"

definition ulp :: "rat \<Rightarrow> rat" where
  "ulp x = pow2 (max (binade \<bar>x\<bar> - 52) (- 1074))"

definition roundToDouble :: "rat \<Rightarrow> rat" where
  "roundToDouble x = of_int (roundTiesToEven (x / ulp x)) * ulp x"

definition num_add :: "rat \<Rightarrow> rat \<Rightarrow> rat" where
  "num_add a b = roundToDouble (a + b)"

text \<open>
  The Node detector. The workspace is what the detector can observe: the relative
  paths of the \<^verbatim>\<open>package.json\<close> files that \<^verbatim>\<open>findAllPackageJsons\<close> returns, the
  keys of the two dependency tables of each file that parses (\<open>None\<close> for one that
  does not), and which relative paths exist.
\<close>

record PackageJson =
  dependencies :: "string list"
  devDependencies :: "string list"

record Workspace =
  packageJsons :: "string list"
  readJsonFile :: "string \<Rightarrow> PackageJson option"
  fileExists :: "string \<Rightarrow> bool"

record FrameworkPattern =
  fp_id :: string
  fp_name :: string
  fp_dependencies :: "string list"
  fp_configFiles :: "string list"
  fp_confidence :: rat

definition frameworkPatterns :: "FrameworkPattern list" where
  "frameworkPatterns =
     [\<lparr>fp_id = ''nextjs'', fp_name = ''Next.js'', fp_dependencies = [''next''],
        fp_configFiles = [''next.config.js'', ''next.config.mjs'', ''next.config.ts''],
        fp_confidence = roundToDouble (95 / 100)\<rparr>,
      \<lparr>fp_id = ''angular'', fp_name = ''Angular'', fp_dependencies = [''@angular/core''],
        fp_configFiles = [''angular.json''], fp_confidence = roundToDouble (95 / 100)\<rparr>,
      \<lparr>fp_id = ''vue'', fp_name = ''Vue'', fp_dependencies = [''vue''],
        fp_configFiles = [''vue.config.js'', ''vite.config.ts'', ''nuxt.config.js''],
        fp_confidence = roundToDouble (9 / 10)\<rparr>,
      \<lparr>fp_id = ''svelte'', fp_name = ''Svelte'', fp_dependencies = [''svelte''],
        fp_configFiles = [''svelte.config.js''], fp_confidence = roundToDouble (95 / 100)\<rparr>,
      \<lparr>fp_id = ''vite'', fp_name = ''Vite'', fp_dependencies = [''vite''],
        fp_configFiles = [''vite.config.js'', ''vite.config.ts''], fp_confidence = roundToDouble (9 / 10)\<rparr>,
      \<lparr>fp_id = ''react'', fp_name = ''React'', fp_dependencies = [''react'', ''react-dom''],
        fp_configFiles = [], fp_confidence = roundToDouble (85 / 100)\<rparr>]"

text \<open>\<^verbatim>\<open>BaseDetector.createDetection\<close> in the Node detector, whose rule category is \<^verbatim>\<open>node\<close>.\<close>

definition createDetection :: "string \<Rightarrow> string \<Rightarrow> string \<Rightarrow> rat \<Rightarrow> DetectedFramework" where
  "createDetection fid nm source c =
     \<lparr>frameworkId = fid, name = nm, detectedAt = source, confidence = c, ruleCategory = Node\<rparr>"

text \<open>
  \<^verbatim>\<open>path.dirname\<close> (POSIX flavour), and \<^verbatim>\<open>path.join\<close> of a directory that is
  \<^verbatim>\<open>.\<close> or a normalized relative directory with a file name.
\<close>

definition path_dirname :: "string \<Rightarrow> string" where
  "path_dirname p =
     (if p = [] then ''.''
      else
        (let found = dropWhile (\<lambda>c. c \<noteq> CHR ''/'')
                       (dropWhile (\<lambda>c. c = CHR ''/'') (rev (tl p)))
         in if found = [] then (if hd p = CHR ''/'' then ''/'' else ''.'')
            else if hd p = CHR ''/'' \<and> length found = 1 then ''//''
            else take (length found) p))"

definition path_join :: "string \<Rightarrow> string \<Rightarrow> string" where
  "path_join dir file = (if dir = ''.'' then file else dir @ ''/'' @ file)"

text \<open>The loop over the configuration files, which stops at the first one found.\<close>

fun configBoost :: "Workspace \<Rightarrow> string \<Rightarrow> rat \<Rightarrow> string list \<Rightarrow> rat" where
  "configBoost ws relativeDir c [] = c"
| "configBoost ws relativeDir c (configFile # others) =
     (if fileExists ws (path_join relativeDir configFile)
      then min 1 (num_add c (roundToDouble (5 / 100)))
      else configBoost ws relativeDir c others)"

definition detectFramework ::
  "Workspace \<Rightarrow> string \<Rightarrow> string list \<Rightarrow> FrameworkPattern \<Rightarrow> DetectedFramework list" where
  "detectFramework ws relativePath allDeps framework =
     (if \<exists>dep \<in> set (fp_dependencies framework). dep \<in> set allDeps
      then [createDetection (fp_id framework) (fp_name framework) relativePath
              (configBoost ws (path_dirname relativePath) (fp_confidence framework)
                 (fp_configFiles framework))]
      else [])"

definition detectIn :: "Workspace \<Rightarrow> string \<Rightarrow> DetectedFramework list" where
  "detectIn ws relativePath =
     (case readJsonFile ws relativePath of
        None \<Rightarrow> []
      | Some packageJson \<Rightarrow>
          (let allDeps = dependencies packageJson @ devDependencies packageJson
           in createDetection ''node'' ''Node.js'' relativePath (roundToDouble (8 / 10))
              # concat (map (detectFramework ws relativePath allDeps) frameworkPatterns)))"

definition Node_detect :: "Workspace \<Rightarrow> DetectedFramework list" where
  "Node_detect ws = Node_deduplicateDetections (concat (map (detectIn ws) (packageJsons ws)))"

text \<open>A workspace whose root declares \<^verbatim>\<open>next\<close> and holds \<^verbatim>\<open>next.config.js\<close>.\<close>

definition nextWorkspace :: Workspace where
  "nextWorkspace =
     \<lparr>packageJsons = [''package.json''],
      readJsonFile = (\<lambda>p. if p = ''package.json''
                           then Some \<lparr>dependencies = [''next'', ''react''], devDependencies = []\<rparr>
                           else None),
      fileExists = (\<lambda>p. p = ''package.json'' \<or> p = ''next.config.js'')\<rparr>"


section \<open>Facts about the string functions\<close>

lemma startsWith_Nil [simp]: "startsWith s []"
  by (simp add: startsWith_def)

lemma startsWith_Nil_Cons [simp]: "\<not> startsWith [] (y # ys)"
  by (simp add: startsWith_def)

lemma startsWith_Cons_Cons [simp]: "startsWith (x # xs) (y # ys) \<longleftrightarrow> x = y \<and> startsWith xs ys"
  by (auto simp: startsWith_def)

lemma startsWith_prefix: "startsWith s p \<longleftrightarrow> prefix p s"
  unfolding startsWith_def prefix_def
  by (metis append_eq_conv_conj append_take_drop_id)

lemma str_includes_sublist: "str_includes s p \<longleftrightarrow> sublist p s"
  by (induction s) (auto simp: startsWith_prefix sublist_Cons_right)

lemma str_includes_char: "str_includes s [c] \<longleftrightarrow> c \<in> set s"
  by (induction s) (auto simp: startsWith_def)

lemma basename_suffix_strip:
  "\<exists>a b. p = a @ basename p @ b"
proof -
  let ?r = "rev p"
  let ?d = "dropWhile (\<lambda>c. c = CHR ''/'') ?r"
  have 1: "?r = takeWhile (\<lambda>c. c = CHR ''/'') ?r @ ?d" by simp
  have 2: "?d = takeWhile (\<lambda>c. c \<noteq> CHR ''/'') ?d @ dropWhile (\<lambda>c. c \<noteq> CHR ''/'') ?d" by simp
  have "p = rev ?r" by simp
  also have "\<dots> = rev ?d @ rev (takeWhile (\<lambda>c. c = CHR ''/'') ?r)"
    by (metis 1 rev_append)
  also have "rev ?d = rev (dropWhile (\<lambda>c. c \<noteq> CHR ''/'') ?d) @ basename p"
    unfolding basename_def by (metis 2 rev_append)
  finally show ?thesis by (metis append_assoc)
qed

lemma basename_included: "str_includes p (basename p)"
  unfolding str_includes_sublist sublist_def using basename_suffix_strip[of p] by metis


section \<open>The \<^verbatim>\<open>.env\<close> family\<close>

text \<open>
  Claim C1, as the code has it. With the pattern \<^verbatim>\<open>.env\<close>, a file whose base name is
  \<^verbatim>\<open>.env\<close> or starts with \<^verbatim>\<open>.env.\<close> matches in the watcher's, the scanner's and
  the rule engine's matcher (the rule engine's for a base name that occurs in the
  path, as every base name does). A file whose base name is \<^verbatim>\<open>.environment\<close>
  matches in the watcher and the scanner only when it lies under a directory named
  \<^verbatim>\<open>.env\<close>; the rule engine, which looks for the pattern anywhere in the path,
  matches it always.
\<close>

theorem C1_env_pattern:
  "((fileName = ''.env'' \<or> startsWith fileName ''.env.'') \<longrightarrow>
      FW_matchesPattern fullPath fileName ''.env'' = Some True \<and>
      CS_matchesPattern fullPath fileName ''.env'' = Some True \<and>
      (str_includes fullPath fileName \<longrightarrow> RE_matchesPattern fullPath fileName ''.env'' = Some True)) \<and>
   (basename f = ''.environment'' \<longrightarrow>
      FW_matchesPattern f (basename f) ''.env'' = Some (startsWith f ''.env/'' \<or> str_includes f ''/.env/'') \<and>
      CS_matchesPattern f (basename f) ''.env'' = Some (startsWith f ''.env/'' \<or> str_includes f ''/.env/'') \<and>
      RE_matchesPattern f (basename f) ''.env'' = Some True)"
proof -
  have ss: "strip_slash ''.env'' = ''.env''"
    by (simp add: strip_slash_def endsWith_def)
  have pos_fw: "FW_matchesPattern fullPath fileName ''.env'' = Some True"
    if "fileName = ''.env'' \<or> startsWith fileName ''.env.''"
    using that by (auto simp: FW_matchesPattern_def ss Let_def)
  have pos_cs: "CS_matchesPattern fullPath fileName ''.env'' = Some True"
    if "fileName = ''.env'' \<or> startsWith fileName ''.env.''"
    using that by (auto simp: CS_matchesPattern_def ss Let_def)
  have inc: "str_includes fileName ''.env''"
    if "fileName = ''.env'' \<or> startsWith fileName ''.env.''"
  proof -
    from that have "prefix ''.env'' fileName"
      by (auto simp: startsWith_prefix prefix_def)
    then show ?thesis
      unfolding str_includes_sublist by (rule prefix_imp_sublist)
  qed
  have pos_re: "RE_matchesPattern fullPath fileName ''.env'' = Some True"
    if a: "fileName = ''.env'' \<or> startsWith fileName ''.env.''" and b: "str_includes fullPath fileName"
  proof -
    have "sublist ''.env'' fullPath"
      using inc[OF a] b unfolding str_includes_sublist by (rule sublist_order.order_trans)
    then show ?thesis
      by (simp add: RE_matchesPattern_def ss str_includes_sublist Let_def)
  qed
  have neg: "FW_matchesPattern f (basename f) ''.env'' = Some (startsWith f ''.env/'' \<or> str_includes f ''/.env/'') \<and>
      CS_matchesPattern f (basename f) ''.env'' = Some (startsWith f ''.env/'' \<or> str_includes f ''/.env/'') \<and>
      RE_matchesPattern f (basename f) ''.env'' = Some True"
    if b: "basename f = ''.environment''"
  proof -
    have ne: "f \<noteq> ''.env''"
      using b by (auto simp: basename_def)
    have "str_includes f ''.environment''"
      using basename_included[of f] b by simp
    moreover have "str_includes ''.environment'' ''.env''"
      by simp
    ultimately have i: "str_includes f ''.env''"
      unfolding str_includes_sublist by (rule sublist_order.order_trans[rotated])
    show ?thesis
      using ne i by (auto simp: FW_matchesPattern_def CS_matchesPattern_def RE_matchesPattern_def ss b Let_def)
  qed
  show ?thesis
    using pos_fw pos_cs pos_re neg by blast
qed

text \<open>The theorem at \<^verbatim>\<open>cfg/.env.production\<close> and at \<^verbatim>\<open>.environment\<close>.\<close>

theorem C1_env_pattern_witness:
  "FW_matchesPattern ''cfg/.env.production'' ''.env.production'' ''.env'' = Some True \<and>
   CS_matchesPattern ''cfg/.env.production'' ''.env.production'' ''.env'' = Some True \<and>
   RE_matchesPattern ''cfg/.env.production'' ''.env.production'' ''.env'' = Some True \<and>
   FW_matchesPattern ''.environment'' (basename ''.environment'') ''.env'' = Some False \<and>
   CS_matchesPattern ''.environment'' (basename ''.environment'') ''.env'' = Some False \<and>
   RE_matchesPattern ''.environment'' (basename ''.environment'') ''.env'' = Some True"
  using C1_env_pattern [of "''.env.production''" "''cfg/.env.production''" "''.environment''"]
  by (simp add: basename_def)

text \<open>
  Claim C1 as stated fails for the rule engine: \<^verbatim>\<open>.environment\<close> contains
  \<^verbatim>\<open>.env\<close>, so \<^verbatim>\<open>RuleEngine.matchesPattern\<close> returns true.
\<close>

theorem C1_rule_engine_counterexample:
  "RE_matchesPattern ''.environment'' (basename ''.environment'') ''.env'' = Some True"
  by (simp add: RE_matchesPattern_def basename_def strip_slash_def endsWith_def)

lemma str_includes_mid: "str_includes f (a @ n @ b) \<Longrightarrow> str_includes f n"
  unfolding str_includes_sublist sublist_def by (metis append_assoc)

lemma startsWith_includes: "startsWith f (n @ b) \<Longrightarrow> str_includes f n"
  unfolding str_includes_sublist startsWith_prefix sublist_def prefix_def
  by (metis append_Nil append_assoc)

lemma strip_slash_butlast: "endsWith p ''/'' \<Longrightarrow> strip_slash p = butlast p"
  by (simp add: strip_slash_def)

section \<open>Patterns without a star\<close>

text \<open>
  Claim C2, as the code has it. For a pattern \<open>p\<close> without \<^verbatim>\<open>*\<close>, let \<open>n\<close> be \<open>p\<close>
  without one trailing slash. Called with the base name of the path \<open>f\<close>, the
  watcher's matcher returns true exactly when the base name is \<open>n\<close>, or \<open>n\<close> is
  \<^verbatim>\<open>.env\<close> and the base name starts with \<^verbatim>\<open>.env.\<close>, or \<open>f\<close> contains \<^verbatim>\<open>/n/\<close> or
  starts with \<^verbatim>\<open>n/\<close>; the scanner's matcher returns true exactly in these cases
  (with the \<^verbatim>\<open>.env\<close> test on \<open>p\<close> itself) and when \<open>f\<close> is \<open>n\<close>; the rule engine's
  matcher returns true exactly when \<open>n\<close> occurs in \<open>f\<close>.
\<close>

theorem C2_star_free:
  assumes "CHR ''*'' \<notin> set p"
  shows "FW_matchesPattern f (basename f) p =
           Some (basename f = strip_slash p \<or>
                 (strip_slash p = ''.env'' \<and> startsWith (basename f) ''.env.'') \<or>
                 str_includes f (''/'' @ strip_slash p @ ''/'') \<or>
                 startsWith f (strip_slash p @ ''/'')) \<and>
         CS_matchesPattern f (basename f) p =
           Some (basename f = strip_slash p \<or> f = strip_slash p \<or>
                 startsWith f (strip_slash p @ ''/'') \<or>
                 str_includes f (''/'' @ strip_slash p @ ''/'') \<or>
                 (p = ''.env'' \<and> startsWith (basename f) ''.env.'')) \<and>
         RE_matchesPattern f (basename f) p = Some (str_includes f (strip_slash p))"
proof -
  have ns: "\<not> str_includes p ''*''"
    using assms by (simp add: str_includes_char)
  have fw: "FW_matchesPattern f (basename f) p =
           Some (basename f = strip_slash p \<or>
                 (strip_slash p = ''.env'' \<and> startsWith (basename f) ''.env.'') \<or>
                 str_includes f (''/'' @ strip_slash p @ ''/'') \<or>
                 startsWith f (strip_slash p @ ''/''))"
    unfolding FW_matchesPattern_def Let_def using ns by auto
  have cs: "CS_matchesPattern f (basename f) p =
           Some (basename f = strip_slash p \<or> f = strip_slash p \<or>
                 startsWith f (strip_slash p @ ''/'') \<or>
                 str_includes f (''/'' @ strip_slash p @ ''/'') \<or>
                 (p = ''.env'' \<and> startsWith (basename f) ''.env.''))"
    unfolding CS_matchesPattern_def Let_def using ns
    by (auto simp: strip_slash_def endsWith_def)
  have re: "RE_matchesPattern f (basename f) p = Some (str_includes f (strip_slash p))"
  proof (cases "str_includes f (strip_slash p)")
    case True
    then show ?thesis
      unfolding RE_matchesPattern_def Let_def by simp
  next
    case False
    have nb: "basename f \<noteq> strip_slash p"
      using False basename_included[of f] by auto
    have "\<not> str_includes f (''/'' @ butlast p @ ''/'')" "\<not> startsWith f (butlast p @ ''/'')"
      if "endsWith p ''/''"
      using False that str_includes_mid[of f "''/''" "butlast p" "''/''"]
        startsWith_includes[of f "butlast p" "''/''"]
      by (auto simp: strip_slash_butlast)
    then show ?thesis
      unfolding RE_matchesPattern_def Let_def using False nb ns by auto
  qed
  show ?thesis using fw cs re by simp
qed

text \<open>The theorem at the pattern \<^verbatim>\<open>node_modules/\<close>.\<close>

theorem C2_star_free_witness:
  "FW_matchesPattern ''src/node_modules/x.js'' (basename ''src/node_modules/x.js'') ''node_modules/'' = Some True \<and>
   CS_matchesPattern ''src/node_modules/x.js'' (basename ''src/node_modules/x.js'') ''node_modules/'' = Some True \<and>
   RE_matchesPattern ''src/node_modules/x.js'' (basename ''src/node_modules/x.js'') ''node_modules/'' = Some True"
  using C2_star_free [of "''node_modules/''" "''src/node_modules/x.js''"]
  by (simp add: basename_def strip_slash_def endsWith_def)

text \<open>
  Claim C2 as stated fails: each matcher returns true on a star-free pattern and a
  path for which the base name is not the pattern and the path neither contains
  \<^verbatim>\<open>/p/\<close> nor starts with \<^verbatim>\<open>p/\<close>.
\<close>

theorem C2_counterexample:
  "FW_matchesPattern ''.env.local'' (basename ''.env.local'') ''.env'' = Some True \<and>
   \<not> (basename ''.env.local'' = ''.env'' \<or> str_includes ''.env.local'' (''/'' @ ''.env'' @ ''/'') \<or>
      startsWith ''.env.local'' (''.env'' @ ''/'')) \<and>
   FW_matchesPattern ''dist'' (basename ''dist'') ''dist/'' = Some True \<and>
   \<not> (basename ''dist'' = ''dist/'' \<or> str_includes ''dist'' (''/'' @ ''dist/'' @ ''/'') \<or>
      startsWith ''dist'' (''dist/'' @ ''/'')) \<and>
   CS_matchesPattern ''conf/key.pem'' (basename ''conf/key.pem'') ''conf/key.pem'' = Some True \<and>
   \<not> (basename ''conf/key.pem'' = ''conf/key.pem'' \<or>
      str_includes ''conf/key.pem'' (''/'' @ ''conf/key.pem'' @ ''/'') \<or>
      startsWith ''conf/key.pem'' (''conf/key.pem'' @ ''/'')) \<and>
   RE_matchesPattern ''build.gradle'' (basename ''build.gradle'') ''build'' = Some True \<and>
   \<not> (basename ''build.gradle'' = ''build'' \<or> str_includes ''build.gradle'' (''/'' @ ''build'' @ ''/'') \<or>
      startsWith ''build.gradle'' (''build'' @ ''/''))"
  by (simp add: FW_matchesPattern_def CS_matchesPattern_def RE_matchesPattern_def basename_def
      strip_slash_def endsWith_def)

section \<open>Appending to the ignore file\<close>

lemma split_on_nonempty [simp]: "split_on sep s \<noteq> []"
  by (induction s) (auto split: list.splits)




lemma endsWith_snoc: "endsWith s [c] \<longleftrightarrow> (\<exists>a. s = a @ [c])"
proof
  assume "endsWith s [c]"
  then have "drop (length s - 1) s = [c]" "1 \<le> length s"
    by (auto simp: endsWith_def)
  then have "s = take (length s - 1) s @ [c]"
    by (metis append_take_drop_id)
  then show "\<exists>a. s = a @ [c]" ..
next
  assume "\<exists>a. s = a @ [c]"
  then show "endsWith s [c]"
    by (auto simp: endsWith_def)
qed



lemma newLinesFor_nonempty [simp]: "newLinesFor file toAdd fw \<noteq> []"
  by (simp add: newLinesFor_def)

lemma newContentFor_alt:
  "newContentFor file toAdd fw =
     (if readOrEmpty file \<noteq> [] \<and> \<not> endsWith (readOrEmpty file) [CHR 0x0A]
      then readOrEmpty file @ [CHR 0x0A] else readOrEmpty file)
     @ join_nl (newLinesFor file toAdd fw) @ [CHR 0x0A]"
  by (simp add: newContentFor_def newLinesFor_def Let_def)






lemma trim_Nil [simp]: "trim [] = []"
  by (simp add: trim_def)




lemma newContentFor_nonempty [simp]: "newContentFor file toAdd fw \<noteq> []"
  by (simp add: newContentFor_alt)













text \<open>
  Claim C9. When some rule is missing, so that a write is attempted, and the write
  throws, \<^verbatim>\<open>addPatterns\<close> returns a result with \<open>success = False\<close> and an error
  message: the message of the thrown \<^verbatim>\<open>Error\<close>, or \<^verbatim>\<open>Unknown error\<close>.
\<close>

theorem C9_write_failure:
  assumes "\<exists>r \<in> set rs. normalizePattern (pattern r) \<notin> getExistingPatterns file"
  shows "addPatterns (WriteThrows e) file rs frameworkName =
           (\<lparr>success = False, addedPatterns = [],
             existingPatterns =
               map pattern (filter (\<lambda>r. normalizePattern (pattern r) \<in> getExistingPatterns file) rs),
             error = Some (case e of JsError message \<Rightarrow> message | NonError \<Rightarrow> ''Unknown error'')\<rparr>,
            file)"
proof -
  have "filter (\<lambda>r. normalizePattern (pattern r) \<notin> getExistingPatterns file) rs \<noteq> []"
    using assms by (simp add: filter_empty_conv)
  then show ?thesis
    by (simp add: addPatterns_def Let_def writeFile_def)
qed

text \<open>The theorem at a write that fails with a permission error.\<close>

theorem C9_write_failure_witness:
  "addPatterns (WriteThrows (JsError ''EACCES: permission denied'')) (Some ''dist'')
     [\<lparr>pattern = ''.env'', severity = Critical, reason = ''Secrets''\<rparr>] None =
   (\<lparr>success = False, addedPatterns = [], existingPatterns = [],
     error = Some ''EACCES: permission denied''\<rparr>, Some ''dist'')"
  using C9_write_failure [of "[\<lparr>pattern = ''.env'', severity = Critical, reason = ''Secrets''\<rparr>]"
      "Some ''dist''" "JsError ''EACCES: permission denied''" None]
  by (simp add: getExistingPatterns_def trim_def js_space_def normalizePattern_def)

text \<open>
  Claim C10. If the normalized pattern of every rule is among the patterns of the
  ignore file, \<^verbatim>\<open>addPatterns\<close> returns success with no added pattern and every
  input pattern among the existing ones, whatever a write would have done, and the
  file is the one it was.
\<close>

theorem C10_nothing_to_add:
  assumes "\<forall>r \<in> set rs. normalizePattern (pattern r) \<in> getExistingPatterns file"
  shows "addPatterns w file rs frameworkName =
           (\<lparr>success = True, addedPatterns = [], existingPatterns = map pattern rs, error = None\<rparr>,
            file)"
proof -
  have "filter (\<lambda>r. normalizePattern (pattern r) \<notin> getExistingPatterns file) rs = []"
    using assms by (simp add: filter_empty_conv)
  moreover have "filter (\<lambda>r. normalizePattern (pattern r) \<in> getExistingPatterns file) rs = rs"
    using assms by (simp add: filter_id_conv)
  ultimately show ?thesis
    by (simp add: addPatterns_def Let_def)
qed


text \<open>The theorem at a file that lists \<^verbatim>\<open>node_modules\<close> and the rule \<^verbatim>\<open>node_modules/\<close>.\<close>

theorem C10_nothing_to_add_witness:
  "addPatterns (WriteThrows NonError) (Some ''# deps\<newline>node_modules\<newline>'')
     [\<lparr>pattern = ''node_modules/'', severity = Recommended, reason = ''Dependencies''\<rparr>] None =
   (\<lparr>success = True, addedPatterns = [], existingPatterns = [''node_modules/''], error = None\<rparr>,
    Some ''# deps\<newline>node_modules\<newline>'')"
  using C10_nothing_to_add [of "[\<lparr>pattern = ''node_modules/'', severity = Recommended, reason = ''Dependencies''\<rparr>]"
      "Some ''# deps\<newline>node_modules\<newline>''" "WriteThrows NonError" None]
  by (simp add: getExistingPatterns_def trim_def js_space_def normalizePattern_def)

section \<open>Batching of creation events\<close>

lemma advance_idle:
  "debounceTimer w = None \<or> (\<exists>d. debounceTimer w = Some d \<and> t < d) \<Longrightarrow> advance t w = w"
  by (auto simp: advance_def)

lemma run_burst:
  assumes "evs \<noteq> []" "burst (map fst evs)"
    "debounceTimer w = None \<or> (\<exists>d. debounceTimer w = Some d \<and> fst (hd evs) < d)"
  shows "run evs w =
           w\<lparr>pendingNotifications := upsertAll evs (pendingNotifications w),
             debounceTimer := Some (fst (last evs) + debounceDelay)\<rparr>"
  using assms
proof (induction evs arbitrary: w)
  case Nil
  then show ?case by simp
next
  case (Cons te evs)
  obtain t e where te: "te = (t, e)"
    by (cases te)
  have idle: "advance t w = w"
    using Cons.prems(3) te by (intro advance_idle) simp
  let ?w1 = "queueNotification t e w"
  show ?case
  proof (cases evs)
    case Nil
    then show ?thesis
      using idle te by (simp add: queueNotification_def upsertAll_def)
  next
    case (Cons te' rest)
    have b: "burst (map fst evs)" and c: "fst te' < t + debounceDelay"
      using Cons.prems(2) te Cons by auto
    have "debounceTimer ?w1 = None \<or> (\<exists>d. debounceTimer ?w1 = Some d \<and> fst (hd evs) < d)"
      using c Cons by (simp add: queueNotification_def)
    then have "run evs ?w1 =
        ?w1\<lparr>pendingNotifications := upsertAll evs (pendingNotifications ?w1),
            debounceTimer := Some (fst (last evs) + debounceDelay)\<rparr>"
      using Cons.IH[of ?w1] b Cons by simp
    then show ?thesis
      using idle te Cons by (simp add: queueNotification_def upsertAll_def)
  qed
qed

lemma update_fresh: "k \<notin> fst ` set al \<Longrightarrow> AList.update k v al = al @ [(k, v)]"
  by (induction al) auto

lemma upsertAll_distinct:
  assumes "distinct (map (filePath \<circ> snd) evs)"
    "fst ` set pending \<inter> set (map (filePath \<circ> snd) evs) = {}"
  shows "upsertAll evs pending = pending @ map (\<lambda>te. (filePath (snd te), snd te)) evs"
  using assms
proof (induction evs arbitrary: pending)
  case Nil
  then show ?case by (simp add: upsertAll_def)
next
  case (Cons te evs)
  have fresh: "filePath (snd te) \<notin> fst ` set pending"
    using Cons.prems(2) by auto
  let ?p1 = "pending @ [(filePath (snd te), snd te)]"
  have "fst ` set ?p1 \<inter> set (map (filePath \<circ> snd) evs) = {}"
    using Cons.prems by auto
  then have "upsertAll evs ?p1 = ?p1 @ map (\<lambda>te. (filePath (snd te), snd te)) evs"
    using Cons.IH[of ?p1] Cons.prems(1) by simp
  then show ?case
    using update_fresh[OF fresh] by (simp add: upsertAll_def)
qed

text \<open>
  Claim C5. A schedule of events for distinct paths whose gaps are all shorter than
  the debounce delay produces no flush while it runs and, once the clock has passed
  the last arrival by the delay, exactly one flush, which holds every event; two
  events more than the delay apart produce two flushes of one event each.
\<close>

theorem C5_debounce:
  "(evs \<noteq> [] \<and> burst (map fst evs) \<and> distinct (map (filePath \<circ> snd) evs) \<and>
      fst (last evs) + debounceDelay \<le> T \<longrightarrow>
      flushed (run evs newWatcher) = [] \<and>
      flushed (advance T (run evs newWatcher)) = [map snd evs] \<and>
      pendingNotifications (advance T (run evs newWatcher)) = []) \<and>
   (t1 + debounceDelay < t2 \<and> t2 + debounceDelay \<le> T' \<longrightarrow>
      flushed (advance T' (run [(t1, e1), (t2, e2)] newWatcher)) = [[e1], [e2]])"
proof -
  have one: "flushed (run evs newWatcher) = [] \<and>
      flushed (advance T (run evs newWatcher)) = [map snd evs] \<and>
      pendingNotifications (advance T (run evs newWatcher)) = []"
    if ne: "evs \<noteq> []" and b: "burst (map fst evs)"
      and d: "distinct (map (filePath \<circ> snd) evs)" and late: "fst (last evs) + debounceDelay \<le> T"
  proof -
    have r: "run evs newWatcher =
        newWatcher\<lparr>pendingNotifications := upsertAll evs [],
          debounceTimer := Some (fst (last evs) + debounceDelay)\<rparr>"
      using run_burst[OF ne b, of newWatcher] by (simp add: newWatcher_def)
    have u: "upsertAll evs [] = map (\<lambda>te. (filePath (snd te), snd te)) evs"
      using upsertAll_distinct[OF d, of "[]"] by simp
    have m: "map snd (map (\<lambda>te. (filePath (snd te), snd te)) evs) = map snd evs"
      by simp
    show ?thesis
      using ne late unfolding r u
      by (simp add: advance_def processPendingNotifications_def newWatcher_def Let_def m)
  qed
  have two: "flushed (advance T' (run [(t1, e1), (t2, e2)] newWatcher)) = [[e1], [e2]]"
    if "t1 + debounceDelay < t2" "t2 + debounceDelay \<le> T'"
    using that
    by (simp add: advance_def processPendingNotifications_def newWatcher_def queueNotification_def Let_def)
  show ?thesis
    using one two by blast
qed


text \<open>
  The theorem at five events 400 ms apart, and at two events 600 ms apart.
\<close>

theorem C5_debounce_witness:
  "flushed (advance 2100 (run [(0, envEvent ''.env''), (400, envEvent ''.env.local''),
        (800, envEvent ''.env.test''), (1200, envEvent ''api/.env''), (1600, envEvent ''web/.env'')]
        newWatcher))
     = [[envEvent ''.env'', envEvent ''.env.local'', envEvent ''.env.test'', envEvent ''api/.env'',
         envEvent ''web/.env'']] \<and>
   flushed (advance 1200 (run [(0, envEvent ''.env''), (600, envEvent ''.env.local'')] newWatcher))
     = [[envEvent ''.env''], [envEvent ''.env.local'']]"
  using C5_debounce [of "[(0, envEvent ''.env''), (400, envEvent ''.env.local''),
        (800, envEvent ''.env.test''), (1200, envEvent ''api/.env''), (1600, envEvent ''web/.env'')]"
      2100 0 600 1200 "envEvent ''.env''" "envEvent ''.env.local''"]
  by (simp add: debounceDelay_def envEvent_def)

section \<open>Deduplication of detections\<close>

lemma Node_dedupStep_keep: "Node_dedupStep = keepStep (\<lambda>d. - confidence d)"
  by (intro ext) (simp add: Node_dedupStep_def keepStep_def split: option.splits)

lemma Java_dedupStep_keep: "Java_dedupStep = keepStep depth"
  by (intro ext) (simp add: Java_dedupStep_def keepStep_def split: option.splits)

lemma map_of_keepStep:
  "map_of (keepStep m d byId) =
     (if (case map_of byId (frameworkId d) of None \<Rightarrow> True | Some ex \<Rightarrow> m d < m ex)
      then (map_of byId)(frameworkId d \<mapsto> d) else map_of byId)"
  by (auto simp: keepStep_def update_conv' split: option.splits)

lemma distinct_keepStep: "distinct (map fst byId) \<Longrightarrow> distinct (map fst (keepStep m d byId))"
  by (auto simp: keepStep_def distinct_update split: option.splits)

lemma find_append_Some: "find P xs = Some v \<Longrightarrow> find P (xs @ ys) = Some v"
  by (induction xs) (auto split: if_splits)

lemma find_append_None: "\<forall>x \<in> set xs. \<not> P x \<Longrightarrow> find P (xs @ ys) = find P ys"
  by (induction xs) auto

lemma keptBy_step:
  assumes "keptBy m ds byId"
  shows "keptBy m (ds @ [d]) (keepStep m d byId)"
proof -
  have dist: "distinct (map fst byId)"
    and best: "\<And>k v. map_of byId k = Some v \<Longrightarrow>
        frameworkId v = k \<and> v \<in> set ds \<and>
        (\<forall>e \<in> set ds. frameworkId e = k \<longrightarrow> m v \<le> m e) \<and>
        find (\<lambda>e. frameworkId e = k \<and> m e = m v) ds = Some v"
    and all: "\<And>e. e \<in> set ds \<Longrightarrow> map_of byId (frameworkId e) \<noteq> None"
    using assms unfolding keptBy_def by blast+
  let ?new = "keepStep m d byId"
  have 1: "distinct (map fst ?new)"
    using dist by (rule distinct_keepStep)
  have 3: "\<forall>e \<in> set (ds @ [d]). map_of ?new (frameworkId e) \<noteq> None"
    using all by (auto simp: map_of_keepStep split: option.splits)
  have 2: "frameworkId v = k \<and> v \<in> set (ds @ [d]) \<and>
        (\<forall>e \<in> set (ds @ [d]). frameworkId e = k \<longrightarrow> m v \<le> m e) \<and>
        find (\<lambda>e. frameworkId e = k \<and> m e = m v) (ds @ [d]) = Some v"
    if kv: "map_of ?new k = Some v" for k v
  proof (cases "map_of byId (frameworkId d)")
    case None
    then have nobody: "\<forall>e \<in> set ds. frameworkId e \<noteq> frameworkId d"
      using all by metis
    show ?thesis
    proof (cases "k = frameworkId d")
      case True
      then have "v = d"
        using kv None by (simp add: map_of_keepStep)
      moreover have "find (\<lambda>e. frameworkId e = frameworkId d \<and> m e = m d) (ds @ [d]) = Some d"
        using nobody by (subst find_append_None) auto
      ultimately show ?thesis
        using True nobody by auto
    next
      case False
      then have old: "map_of byId k = Some v"
        using kv None by (simp add: map_of_keepStep)
      then show ?thesis
        using best[OF old] False by (auto simp: find_append_Some)
    qed
  next
    case (Some ex)
    note exb = best[OF Some]
    show ?thesis
    proof (cases "m d < m ex")
      case True
      show ?thesis
      proof (cases "k = frameworkId d")
        case k: True
        then have v: "v = d"
          using kv Some True by (simp add: map_of_keepStep)
        have lower: "\<forall>e \<in> set ds. frameworkId e = frameworkId d \<longrightarrow> m d < m e"
          using exb True by auto
        then have "find (\<lambda>e. frameworkId e = frameworkId d \<and> m e = m d) (ds @ [d]) = Some d"
          by (subst find_append_None) auto
        then show ?thesis
          using k v lower by auto
      next
        case False
        then have old: "map_of byId k = Some v"
          using kv Some True by (simp add: map_of_keepStep)
        then show ?thesis
          using best[OF old] False by (auto simp: find_append_Some)
      qed
    next
      case False
      then have old: "map_of byId k = Some v"
        using kv Some by (simp add: map_of_keepStep)
      show ?thesis
      proof (cases "k = frameworkId d")
        case True
        then have "v = ex"
          using old Some by simp
        then show ?thesis
          using best[OF old] False True by (auto simp: find_append_Some)
      next
        case False
        then show ?thesis
          using best[OF old] by (auto simp: find_append_Some)
      qed
    qed
  qed
  show ?thesis
    unfolding keptBy_def using 1 2 3 by blast
qed

lemma keptBy_fold: "keptBy m ds (fold (keepStep m) ds [])"
proof (induction ds rule: rev_induct)
  case Nil
  then show ?case by (simp add: keptBy_def)
next
  case (snoc d ds)
  then show ?case
    using keptBy_step[of m ds "fold (keepStep m) ds []" d] by simp
qed


lemma kept_result:
  fixes m :: "DetectedFramework \<Rightarrow> 'a::linorder"
  defines "out \<equiv> \<lambda>ds. map snd (fold (keepStep m) ds [])"
  shows "distinct (map frameworkId (out ds))"
    and "frameworkId ` set (out ds) = frameworkId ` set ds"
    and "v \<in> set (out ds) \<Longrightarrow>
           v \<in> set ds \<and> (\<forall>e \<in> set ds. frameworkId e = frameworkId v \<longrightarrow> m v \<le> m e) \<and>
           find (\<lambda>e. frameworkId e = frameworkId v \<and> m e = m v) ds = Some v"
proof -
  let ?acc = "fold (keepStep m) ds []"
  have k: "keptBy m ds ?acc"
    by (rule keptBy_fold)
  then have dist: "distinct (map fst ?acc)"
    and best: "\<And>k v. map_of ?acc k = Some v \<Longrightarrow>
        frameworkId v = k \<and> v \<in> set ds \<and>
        (\<forall>e \<in> set ds. frameworkId e = k \<longrightarrow> m v \<le> m e) \<and>
        find (\<lambda>e. frameworkId e = k \<and> m e = m v) ds = Some v"
    and all: "\<And>e. e \<in> set ds \<Longrightarrow> map_of ?acc (frameworkId e) \<noteq> None"
    unfolding keptBy_def by blast+
  have pair: "frameworkId v = k" if "(k, v) \<in> set ?acc" for k v
    using that dist best by (metis map_of_eq_Some_iff)
  have "map frameworkId (out ds) = map fst ?acc"
    unfolding out_def using pair by (auto simp: map_eq_conv)
  then show "distinct (map frameworkId (out ds))"
    using dist by simp
  show sub: "v \<in> set (out ds) \<Longrightarrow>
           v \<in> set ds \<and> (\<forall>e \<in> set ds. frameworkId e = frameworkId v \<longrightarrow> m v \<le> m e) \<and>
           find (\<lambda>e. frameworkId e = frameworkId v \<and> m e = m v) ds = Some v" for v
  proof -
    assume "v \<in> set (out ds)"
    then obtain k where kv: "(k, v) \<in> set ?acc"
      unfolding out_def by auto
    then have "map_of ?acc k = Some v"
      using dist by simp
    then show ?thesis
      using best pair[OF kv] by blast
  qed
  show "frameworkId ` set (out ds) = frameworkId ` set ds"
  proof
    show "frameworkId ` set (out ds) \<subseteq> frameworkId ` set ds"
      using sub by blast
    show "frameworkId ` set ds \<subseteq> frameworkId ` set (out ds)"
    proof
      fix i
      assume "i \<in> frameworkId ` set ds"
      then obtain e where e: "e \<in> set ds" "i = frameworkId e"
        by blast
      then obtain v where v: "map_of ?acc (frameworkId e) = Some v"
        using all by blast
      then have "(frameworkId e, v) \<in> set ?acc"
        by (rule map_of_SomeD)
      then have "v \<in> set (out ds)" "frameworkId v = frameworkId e"
        using pair unfolding out_def by force+
      then have "frameworkId e \<in> frameworkId ` set (out ds)"
        by (metis imageI)
      then show "i \<in> frameworkId ` set (out ds)"
        using e by simp
    qed
  qed
qed

lemma Node_dedup_alt:
  "Node_deduplicateDetections ds = map snd (fold (keepStep (\<lambda>d. - confidence d)) ds [])"
  by (simp add: Node_deduplicateDetections_def Node_dedupStep_keep)

lemma Java_dedup_alt:
  "Java_deduplicateByProximity ds = map snd (fold (keepStep depth) ds [])"
  by (simp add: Java_deduplicateByProximity_def Java_dedupStep_keep)

lemma Node_dedup_ids: "frameworkId ` set (Node_deduplicateDetections ds) = frameworkId ` set ds"
  unfolding Node_dedup_alt by (rule kept_result(2))

lemma Node_dedup_best:
  assumes "v \<in> set (Node_deduplicateDetections ds)"
  shows "v \<in> set ds"
    and "\<forall>e \<in> set ds. frameworkId e = frameworkId v \<longrightarrow> confidence e \<le> confidence v"
    and "find (\<lambda>e. frameworkId e = frameworkId v \<and> confidence e = confidence v) ds = Some v"
  using kept_result(3)[of v "\<lambda>d. - confidence d" ds] assms unfolding Node_dedup_alt by auto

text \<open>
  Claim C7, as the code has it. The Node detector's deduplication keeps one
  detection for each identifier that occurs: one of greatest confidence, and among
  those of that confidence the first in detection order, whatever its path. The
  Java detector's deduplication keeps one detection for each identifier: one of
  least depth, the first such in detection order, whatever its confidence.
\<close>

theorem C7_deduplication:
  "distinct (map frameworkId (Node_deduplicateDetections ds)) \<and>
   frameworkId ` set (Node_deduplicateDetections ds) = frameworkId ` set ds \<and>
   (\<forall>d \<in> set (Node_deduplicateDetections ds).
      d \<in> set ds \<and>
      (\<forall>e \<in> set ds. frameworkId e = frameworkId d \<longrightarrow> confidence e \<le> confidence d) \<and>
      find (\<lambda>e. frameworkId e = frameworkId d \<and> confidence e = confidence d) ds = Some d) \<and>
   distinct (map frameworkId (Java_deduplicateByProximity ds)) \<and>
   frameworkId ` set (Java_deduplicateByProximity ds) = frameworkId ` set ds \<and>
   (\<forall>d \<in> set (Java_deduplicateByProximity ds).
      d \<in> set ds \<and>
      (\<forall>e \<in> set ds. frameworkId e = frameworkId d \<longrightarrow> depth d \<le> depth e) \<and>
      find (\<lambda>e. frameworkId e = frameworkId d \<and> depth e = depth d) ds = Some d)"
proof -
  have n1: "distinct (map frameworkId (Node_deduplicateDetections ds))"
    unfolding Node_dedup_alt by (rule kept_result(1))
  have j1: "distinct (map frameworkId (Java_deduplicateByProximity ds))"
    unfolding Java_dedup_alt by (rule kept_result(1))
  have j2: "frameworkId ` set (Java_deduplicateByProximity ds) = frameworkId ` set ds"
    unfolding Java_dedup_alt by (rule kept_result(2))
  have j3: "d \<in> set ds \<and>
      (\<forall>e \<in> set ds. frameworkId e = frameworkId d \<longrightarrow> depth d \<le> depth e) \<and>
      find (\<lambda>e. frameworkId e = frameworkId d \<and> depth e = depth d) ds = Some d"
    if "d \<in> set (Java_deduplicateByProximity ds)" for d
    using kept_result(3)[of d depth ds] that unfolding Java_dedup_alt by simp
  have n3: "\<forall>d \<in> set (Node_deduplicateDetections ds).
      d \<in> set ds \<and>
      (\<forall>e \<in> set ds. frameworkId e = frameworkId d \<longrightarrow> confidence e \<le> confidence d) \<and>
      find (\<lambda>e. frameworkId e = frameworkId d \<and> confidence e = confidence d) ds = Some d"
    using Node_dedup_best[of _ ds] by simp
  have j3': "\<forall>d \<in> set (Java_deduplicateByProximity ds).
      d \<in> set ds \<and>
      (\<forall>e \<in> set ds. frameworkId e = frameworkId d \<longrightarrow> depth d \<le> depth e) \<and>
      find (\<lambda>e. frameworkId e = frameworkId d \<and> depth e = depth d) ds = Some d"
    using j3 by simp
  show ?thesis
    by (intro conjI n1 Node_dedup_ids n3 j1 j2 j3')
qed

text \<open>
  The theorem at two \<^verbatim>\<open>react\<close> detections of confidence 0.85 and 0.90; and two
  \<^verbatim>\<open>maven\<close> detections at different depths.
\<close>

theorem C7_deduplication_witness:
  "Node_deduplicateDetections
     [createDetection ''react'' ''React'' ''package.json'' (85 / 100),
      createDetection ''react'' ''React'' ''apps/web/package.json'' (9 / 10)]
     = [createDetection ''react'' ''React'' ''apps/web/package.json'' (9 / 10)] \<and>
   Java_deduplicateByProximity
     [\<lparr>frameworkId = ''maven'', name = ''Maven'', detectedAt = ''services/api/pom.xml'',
        confidence = 95 / 100, ruleCategory = Java\<rparr>,
      \<lparr>frameworkId = ''maven'', name = ''Maven'', detectedAt = ''pom.xml'',
        confidence = 95 / 100, ruleCategory = Java\<rparr>]
     = [\<lparr>frameworkId = ''maven'', name = ''Maven'', detectedAt = ''pom.xml'',
        confidence = 95 / 100, ruleCategory = Java\<rparr>]"
  using C7_deduplication [of "[createDetection ''react'' ''React'' ''package.json'' (85 / 100),
      createDetection ''react'' ''React'' ''apps/web/package.json'' (9 / 10)]"]
  by (simp add: Node_deduplicateDetections_def Node_dedupStep_def createDetection_def
      Java_deduplicateByProximity_def Java_dedupStep_def depth_def)

text \<open>
  Claim C7 as stated fails on a tie: of two \<^verbatim>\<open>node\<close> detections of confidence
  0.8, the Node detector keeps the first, although the second is closer to the
  root.
\<close>

theorem C7_tie_counterexample:
  "Node_deduplicateDetections
     [createDetection ''node'' ''Node.js'' ''packages/app/package.json'' (8 / 10),
      createDetection ''node'' ''Node.js'' ''package.json'' (8 / 10)]
     = [createDetection ''node'' ''Node.js'' ''packages/app/package.json'' (8 / 10)] \<and>
   depth (createDetection ''node'' ''Node.js'' ''package.json'' (8 / 10))
     < depth (createDetection ''node'' ''Node.js'' ''packages/app/package.json'' (8 / 10))"
  by (simp add: Node_deduplicateDetections_def Node_dedupStep_def createDetection_def depth_def)


section \<open>The Node detector on a Next.js project\<close>

text \<open>The doubles that the literals of the detector denote, and the boosted sums.\<close>

lemma floor_rat_numeral:
  "\<lfloor>(numeral a / numeral b :: rat)\<rfloor> = numeral a div numeral b"
  using floor_divide_of_int_eq[of "numeral a" "numeral b", where ?'a = rat] by simp

lemmas double_eval =
  roundToDouble_def ulp_def binade.simps pow2_def roundTiesToEven_def Let_def floor_rat_numeral

lemma double_080: "roundToDouble (8 / 10) = 7205759403792794 / 2 ^ 53"
  by (simp add: double_eval)

lemma double_085: "roundToDouble (85 / 100) = 7656119366529843 / 2 ^ 53"
  by (simp add: double_eval)

lemma double_090: "roundToDouble (9 / 10) = 8106479329266893 / 2 ^ 53"
  by (simp add: double_eval)

lemma double_095: "roundToDouble (95 / 100) = 8556839292003942 / 2 ^ 53"
  by (simp add: double_eval)

lemma double_005: "roundToDouble (5 / 100) = 7205759403792794 / 2 ^ 57"
  by (simp add: double_eval)

text \<open>
  \<^verbatim>\<open>0.95 + 0.05\<close>: the exact sum of the two doubles is \<^verbatim>\<open>1 - 6 / 2^57\<close>, which lies
  nearer to 1 than to the double below 1. \<^verbatim>\<open>0.9 + 0.05\<close> is the double above the
  one that \<^verbatim>\<open>0.95\<close> denotes.
\<close>

lemma boost_095: "num_add (roundToDouble (95 / 100)) (roundToDouble (5 / 100)) = 1"
  unfolding double_095 double_005 by (simp add: num_add_def double_eval)

lemma boost_090:
  "num_add (roundToDouble (9 / 10)) (roundToDouble (5 / 100)) = 8556839292003943 / 2 ^ 53"
  unfolding double_090 double_005 by (simp add: num_add_def double_eval)

lemma configBoost_le: "c \<le> 1 \<Longrightarrow> configBoost ws dir c cfs \<le> 1"
  by (induction cfs) auto

lemma frameworkPatterns_facts:
  "fw \<in> set frameworkPatterns \<Longrightarrow> fp_id fw \<noteq> ''node'' \<and> fp_confidence fw \<le> 1"
  by (auto simp: frameworkPatterns_def double_eval)

lemma detectIn_elem:
  assumes "d \<in> set (detectIn ws p)"
  shows "(frameworkId d = ''node'' \<longrightarrow> confidence d = roundToDouble (8 / 10)) \<and> confidence d \<le> 1"
proof (cases "readJsonFile ws p")
  case None
  then show ?thesis
    using assms by (simp add: detectIn_def)
next
  case (Some pj)
  then consider (base) "d = createDetection ''node'' ''Node.js'' p (roundToDouble (8 / 10))"
    | (fw) fw where "fw \<in> set frameworkPatterns"
        "d \<in> set (detectFramework ws p (dependencies pj @ devDependencies pj) fw)"
    using assms by (auto simp: detectIn_def Let_def)
  then show ?thesis
  proof cases
    case base
    then show ?thesis
      by (simp add: createDetection_def double_eval)
  next
    case fw
    then have "d = createDetection (fp_id fw) (fp_name fw) p
        (configBoost ws (path_dirname p) (fp_confidence fw) (fp_configFiles fw))"
      by (auto simp: detectFramework_def split: if_splits)
    then show ?thesis
      using frameworkPatterns_facts[OF fw(1)] configBoost_le[of "fp_confidence fw"]
      by (simp add: createDetection_def)
  qed
qed

lemma root_dirname: "path_dirname ''package.json'' = ''.''"
  by (simp add: path_dirname_def)

text \<open>
  Claim C8. If the root \<^verbatim>\<open>package.json\<close> is found and parses, declares the
  dependency \<^verbatim>\<open>next\<close>, and \<^verbatim>\<open>next.config.js\<close> exists at the root, the output of
  the Node detector holds a \<^verbatim>\<open>node\<close> detection whose confidence is the double
  \<^verbatim>\<open>0.8\<close> and a \<^verbatim>\<open>nextjs\<close> detection whose confidence is the double 1, the
  rounded sum of the doubles \<^verbatim>\<open>0.95\<close> and \<^verbatim>\<open>0.05\<close>.
\<close>

theorem C8_next_project:
  assumes "''package.json'' \<in> set (packageJsons ws)"
    and "readJsonFile ws ''package.json'' = Some pj"
    and "''next'' \<in> set (dependencies pj)"
    and "fileExists ws ''next.config.js''"
  shows "(\<exists>d \<in> set (Node_detect ws).
            frameworkId d = ''node'' \<and> confidence d = roundToDouble (8 / 10)) \<and>
         (\<exists>d \<in> set (Node_detect ws). frameworkId d = ''nextjs'' \<and> confidence d = 1) \<and>
         num_add (roundToDouble (95 / 100)) (roundToDouble (5 / 100)) = 1"
proof -
  let ?all = "concat (map (detectIn ws) (packageJsons ws))"
  let ?node = "createDetection ''node'' ''Node.js'' ''package.json'' (roundToDouble (8 / 10))"
  let ?next = "createDetection ''nextjs'' ''Next.js'' ''package.json'' 1"
  have elem: "(frameworkId d = ''node'' \<longrightarrow> confidence d = roundToDouble (8 / 10)) \<and> confidence d \<le> 1"
    if "d \<in> set ?all" for d
    using that detectIn_elem by auto
  have boost: "configBoost ws ''.'' (roundToDouble (95 / 100))
      [''next.config.js'', ''next.config.mjs'', ''next.config.ts''] = 1"
    using assms(4) by (simp add: path_join_def num_add_def double_eval)
  have "?node \<in> set (detectIn ws ''package.json'')"
    using assms(2) by (simp add: detectIn_def Let_def)
  then have node_in: "?node \<in> set ?all"
    using assms(1) by auto
  have "?next \<in> set (detectFramework ws ''package.json'' (dependencies pj @ devDependencies pj)
      (hd frameworkPatterns))"
    using assms(3) boost by (simp add: detectFramework_def frameworkPatterns_def root_dirname)
  then have "?next \<in> set (detectIn ws ''package.json'')"
    using assms(2) by (simp add: detectIn_def Let_def frameworkPatterns_def)
  then have next_in: "?next \<in> set ?all"
    using assms(1) by auto
  have out_ids: "frameworkId ` set (Node_detect ws) = frameworkId ` set ?all"
    unfolding Node_detect_def by (rule Node_dedup_ids)
  have "''node'' \<in> frameworkId ` set ?all"
    using node_in by (force simp: createDetection_def)
  then obtain d1 where d1: "d1 \<in> set (Node_detect ws)" "frameworkId d1 = ''node''"
    unfolding out_ids[symmetric] by auto
  have "d1 \<in> set ?all"
    using d1(1) unfolding Node_detect_def by (rule Node_dedup_best(1))
  then have c1: "confidence d1 = roundToDouble (8 / 10)"
    using elem d1(2) by blast
  have "''nextjs'' \<in> frameworkId ` set ?all"
    using next_in by (force simp: createDetection_def)
  then obtain d2 where d2: "d2 \<in> set (Node_detect ws)" "frameworkId d2 = ''nextjs''"
    unfolding out_ids[symmetric] by auto
  have "d2 \<in> set ?all"
    using d2(1) unfolding Node_detect_def by (rule Node_dedup_best(1))
  then have le: "confidence d2 \<le> 1"
    using elem by blast
  have "\<forall>e \<in> set ?all. frameworkId e = frameworkId d2 \<longrightarrow> confidence e \<le> confidence d2"
    using d2(1) unfolding Node_detect_def by (rule Node_dedup_best(2))
  moreover have "frameworkId ?next = frameworkId d2"
    using d2(2) by (simp add: createDetection_def)
  ultimately have "confidence ?next \<le> confidence d2"
    using next_in by blast
  then have c2: "confidence d2 = 1"
    using le by (simp add: createDetection_def)
  show ?thesis
    using d1 c1 d2 c2 boost_095 by blast
qed

text \<open>The theorem at the workspace \<open>nextWorkspace\<close>.\<close>

theorem C8_next_project_witness:
  "(\<exists>d \<in> set (Node_detect nextWorkspace).
      frameworkId d = ''node'' \<and> confidence d = roundToDouble (8 / 10)) \<and>
   (\<exists>d \<in> set (Node_detect nextWorkspace). frameworkId d = ''nextjs'' \<and> confidence d = 1)"
  using C8_next_project [of nextWorkspace "\<lparr>dependencies = [''next'', ''react''], devDependencies = []\<rparr>"]
  by (simp add: nextWorkspace_def)

section \<open>Rules for detections\<close>

lemma firstSeen_append:
  "firstSeen e (xs @ ys) = firstSeen e xs @ firstSeen (e @ xs) ys"
  by (induction xs arbitrary: e) auto

lemma addRules_firstSeen:
  "addRules rs (acc, pattern ` set e) = (acc @ firstSeen e rs, pattern ` set (e @ rs))"
proof (induction rs arbitrary: acc e)
  case Nil
  then show ?case by simp
next
  case (Cons r rs)
  show ?case
  proof (cases "pattern r \<in> pattern ` set e")
    case True
    then have "pattern ` set e = pattern ` set (e @ [r])"
      by auto
    then have "addRules rs (acc, pattern ` set e) = (acc @ firstSeen (e @ [r]) rs, pattern ` set ((e @ [r]) @ rs))"
      using Cons.IH[of acc "e @ [r]"] by simp
    then show ?thesis
      using True by simp
  next
    case False
    have "insert (pattern r) (pattern ` set e) = pattern ` set (e @ [r])"
      by auto
    then have "addRules rs (acc @ [r], insert (pattern r) (pattern ` set e))
        = ((acc @ [r]) @ firstSeen (e @ [r]) rs, pattern ` set ((e @ [r]) @ rs))"
      using Cons.IH[of "acc @ [r]" "e @ [r]"] by simp
    then show ?thesis
      using False by simp
  qed
qed

lemma addRules_state:
  "addRules rs (firstSeen [] e, pattern ` set e) = (firstSeen [] (e @ rs), pattern ` set (e @ rs))"
  using firstSeen_append[of "[]" e rs] by (simp add: addRules_firstSeen)

lemma fold_addRules_state:
  "fold (\<lambda>d. addRules (f d)) ds (firstSeen [] e, pattern ` set e)
     = (firstSeen [] (e @ concat (map f ds)), pattern ` set (e @ concat (map f ds)))"
proof (induction ds arbitrary: e)
  case Nil
  then show ?case by simp
next
  case (Cons d ds)
  show ?case
    using Cons.IH[of "e @ f d"] by (simp add: addRules_state)
qed

lemma categoryStep_state:
  "categoryStep rs (c, cds) (firstSeen [] e, pattern ` set e)
     = (firstSeen [] (e @ getRulesForCategory rs c
                        @ concat (map (\<lambda>d. getFrameworkRules rs c (frameworkId d)) cds)),
        pattern ` set (e @ getRulesForCategory rs c
                        @ concat (map (\<lambda>d. getFrameworkRules rs c (frameworkId d)) cds)))"
  using fold_addRules_state[of "\<lambda>d. getFrameworkRules rs c (frameworkId d)" cds
      "e @ getRulesForCategory rs c"]
  by (simp add: categoryStep_def addRules_state)

lemma fold_categoryStep_state:
  "fold (categoryStep rs) groups (firstSeen [] e, pattern ` set e)
     = (firstSeen [] (e @ concat (map (\<lambda>(c, cds). getRulesForCategory rs c
                        @ concat (map (\<lambda>d. getFrameworkRules rs c (frameworkId d)) cds)) groups)),
        pattern ` set (e @ concat (map (\<lambda>(c, cds). getRulesForCategory rs c
                        @ concat (map (\<lambda>d. getFrameworkRules rs c (frameworkId d)) cds)) groups)))"
proof (induction groups arbitrary: e)
  case Nil
  then show ?case by simp
next
  case (Cons g groups)
  obtain c cds where g: "g = (c, cds)"
    by (cases g)
  show ?case
    using Cons.IH[of "e @ getRulesForCategory rs c
                        @ concat (map (\<lambda>d. getFrameworkRules rs c (frameworkId d)) cds)"]
    by (simp add: g categoryStep_state)
qed


lemma remdups_snoc: "remdups (xs @ [c]) = filter (\<lambda>x. x \<noteq> c) (remdups xs) @ [c]"
  by (induction xs) auto

lemma ecosystemsPresent_snoc:
  "ecosystemsPresent (ds @ [d]) =
     (if ruleCategory d \<in> set (ecosystemsPresent ds) then ecosystemsPresent ds
      else ecosystemsPresent ds @ [ruleCategory d])"
  by (simp add: ecosystemsPresent_def)

lemma ecosystemsPresent_set: "set (ecosystemsPresent ds) = ruleCategory ` set ds"
  by (simp add: ecosystemsPresent_def)

lemma ecosystemsPresent_distinct: "distinct (ecosystemsPresent ds)"
  by (simp add: ecosystemsPresent_def)

lemma ecosystemsPresent_Cons:
  "ecosystemsPresent (d # ds) =
     ruleCategory d # filter (\<lambda>c. c \<noteq> ruleCategory d) (ecosystemsPresent ds)"
  by (simp add: ecosystemsPresent_def remdups_snoc rev_filter)

lemma map_of_keyed:
  "map_of (map (\<lambda>c. (c, f c)) cs) k = (if k \<in> set cs then Some (f k) else None)"
  by (induction cs) auto

lemma update_keyed:
  "distinct cs \<Longrightarrow>
   AList.update k v (map (\<lambda>c. (c, f c)) cs) =
     (if k \<in> set cs then map (\<lambda>c. (c, if c = k then v else f c)) cs
      else map (\<lambda>c. (c, f c)) cs @ [(k, v)])"
  by (induction cs) auto

lemma groupByCategory_eq:
  "groupByCategory ds =
     map (\<lambda>c. (c, filter (\<lambda>d. ruleCategory d = c) ds)) (ecosystemsPresent ds)"
proof (induction ds rule: rev_induct)
  case Nil
  then show ?case
    by (simp add: groupByCategory_def ecosystemsPresent_def)
next
  case (snoc d ds)
  let ?k = "ruleCategory d"
  let ?E = "ecosystemsPresent ds"
  let ?f = "\<lambda>c. filter (\<lambda>d. ruleCategory d = c) ds"
  let ?g = "\<lambda>c. filter (\<lambda>x. ruleCategory x = c) (ds @ [d])"
  have step: "groupByCategory (ds @ [d]) = groupStep d (map (\<lambda>c. (c, ?f c)) ?E)"
    using snoc by (simp add: groupByCategory_def)
  show ?case
  proof (cases "?k \<in> set ?E")
    case True
    have "groupStep d (map (\<lambda>c. (c, ?f c)) ?E)
        = map (\<lambda>c. (c, if c = ?k then ?f ?k @ [d] else ?f c)) ?E"
      using True
      by (simp add: groupStep_def map_of_keyed update_keyed ecosystemsPresent_distinct Let_def)
    moreover have "map (\<lambda>c. (c, if c = ?k then ?f ?k @ [d] else ?f c)) ?E = map (\<lambda>c. (c, ?g c)) ?E"
      by (rule map_cong) auto
    moreover have "ecosystemsPresent (ds @ [d]) = ?E"
      using True by (simp add: ecosystemsPresent_snoc)
    ultimately show ?thesis
      using step by simp
  next
    case False
    then have "\<forall>x \<in> set ds. ruleCategory x \<noteq> ?k"
      unfolding ecosystemsPresent_set by (metis imageI)
    then have none: "?f ?k = []"
      by (simp add: filter_empty_conv)
    have a: "groupStep d (map (\<lambda>c. (c, ?f c)) ?E) = map (\<lambda>c. (c, ?f c)) ?E @ [(?k, [d])]"
      using False
      by (simp add: groupStep_def map_of_keyed update_keyed ecosystemsPresent_distinct Let_def)
    have b: "map (\<lambda>c. (c, ?f c)) ?E = map (\<lambda>c. (c, ?g c)) ?E"
      using False by (intro map_cong) auto
    have c: "?g ?k = [d]"
      using none by simp
    have e: "ecosystemsPresent (ds @ [d]) = ?E @ [?k]"
      using False by (simp add: ecosystemsPresent_snoc)
    have "map (\<lambda>c. (c, ?g c)) (ecosystemsPresent (ds @ [d])) = map (\<lambda>c. (c, ?g c)) ?E @ [(?k, [d])]"
      unfolding e using c by simp
    then show ?thesis
      using step a b by simp
  qed
qed

lemma getRulesForDetections_firstSeen:
  "getRulesForDetections rs ds = firstSeen [] (candidateRules rs ds)"
proof -
  let ?block = "\<lambda>(c, cds). getRulesForCategory rs c
                  @ concat (map (\<lambda>d. getFrameworkRules rs c (frameworkId d)) cds)"
  have a: "getRulesForDetections rs ds = firstSeen [] (concat (map ?block (groupByCategory ds)))"
    using fold_categoryStep_state[of rs "groupByCategory ds" "[]"]
    by (simp add: getRulesForDetections_def)
  have b: "concat (map ?block (groupByCategory ds)) = candidateRules rs ds"
    by (simp add: groupByCategory_eq candidateRules_def ecosystemRules_def[abs_def] comp_def)
  show ?thesis
    using a unfolding b .
qed

lemma firstSeen_distinct:
  "distinct (map pattern (firstSeen e xs)) \<and>
   pattern ` set (firstSeen e xs) \<inter> pattern ` set e = {}"
proof (induction xs arbitrary: e)
  case Nil
  then show ?case by simp
next
  case (Cons r xs)
  have ih: "distinct (map pattern (firstSeen (e @ [r]) xs))"
    "pattern ` set (firstSeen (e @ [r]) xs) \<inter> pattern ` set (e @ [r]) = {}"
    using Cons.IH[of "e @ [r]"] by blast+
  from ih(2) have a: "pattern r \<notin> pattern ` set (firstSeen (e @ [r]) xs)"
    and b: "pattern ` set (firstSeen (e @ [r]) xs) \<inter> pattern ` set e = {}"
    by auto
  show ?case
    using ih(1) a b by auto
qed

lemma firstSeen_find:
  "find (\<lambda>r. pattern r = p) (firstSeen e xs) =
     (if p \<in> pattern ` set e then None else find (\<lambda>r. pattern r = p) xs)"
proof (induction xs arbitrary: e)
  case Nil
  then show ?case by simp
next
  case (Cons r xs)
  have ih: "find (\<lambda>r. pattern r = p) (firstSeen (e @ [r]) xs) =
     (if p \<in> pattern ` set (e @ [r]) then None else find (\<lambda>r. pattern r = p) xs)"
    by (rule Cons.IH)
  show ?case
  proof (cases "pattern r \<in> pattern ` set e")
    case True
    then have "pattern ` set (e @ [r]) = pattern ` set e"
      by auto
    then show ?thesis
      using True ih by auto
  next
    case False
    then show ?thesis
      using ih by auto
  qed
qed

lemma find_append_first:
  "(\<exists>x \<in> set xs. P x) \<Longrightarrow> find P (xs @ ys) = find P xs"
  by (induction xs) auto

lemma find_skip:
  "(\<forall>x \<in> set xs. \<not> P x) \<Longrightarrow> find P (xs @ ys) = find P ys"
  by (induction xs) auto

lemma candidateRules_split:
  assumes "c \<in> set (ecosystemsPresent ds)"
  shows "\<exists>later. candidateRules rs ds = rulesBefore rs ds c @ ecosystemRules rs ds c @ later"
proof -
  let ?E = "ecosystemsPresent ds"
  have "dropWhile (\<lambda>x. x \<noteq> c) ?E \<noteq> []"
    using assms by (simp add: dropWhile_eq_Nil_conv)
  then obtain y ys where d: "dropWhile (\<lambda>x. x \<noteq> c) ?E = y # ys"
    by (cases "dropWhile (\<lambda>x. x \<noteq> c) ?E") auto
  then have "y = c"
    using hd_dropWhile[of "\<lambda>x. x \<noteq> c" ?E] by (metis list.distinct(1) list.sel(1))
  then have "?E = takeWhile (\<lambda>x. x \<noteq> c) ?E @ c # ys"
    using d by (metis takeWhile_dropWhile_id)
  then have "candidateRules rs ds =
      concat (map (ecosystemRules rs ds) (takeWhile (\<lambda>x. x \<noteq> c) ?E @ c # ys))"
    unfolding candidateRules_def by simp
  then show ?thesis
    by (simp add: rulesBefore_def)
qed

text \<open>
  Claim C6, as the code has it. \<^verbatim>\<open>getRulesForDetections\<close> returns the candidate
  rules (for each ecosystem in order of first occurrence, its base rules and then
  the rules of its detected frameworks in detection order) without those whose
  pattern an earlier candidate carries. The patterns of the output are pairwise
  distinct, and for each pattern the output holds the first candidate that carries
  it. So a base rule of an ecosystem that is present is the rule the output holds
  for its pattern, unless a rule of an ecosystem that comes earlier carries that
  pattern.
\<close>

theorem C6_rule_merge:
  "getRulesForDetections rs ds = firstSeen [] (candidateRules rs ds) \<and>
   distinct (map pattern (getRulesForDetections rs ds)) \<and>
   (\<forall>p. find (\<lambda>r. pattern r = p) (getRulesForDetections rs ds)
          = find (\<lambda>r. pattern r = p) (candidateRules rs ds)) \<and>
   (\<forall>c \<in> set (ecosystemsPresent ds). \<forall>b \<in> set (getRulesForCategory rs c).
      pattern b \<notin> pattern ` set (rulesBefore rs ds c) \<longrightarrow>
      find (\<lambda>r. pattern r = pattern b) (getRulesForDetections rs ds)
        = find (\<lambda>r. pattern r = pattern b) (getRulesForCategory rs c))"
proof -
  have 1: "getRulesForDetections rs ds = firstSeen [] (candidateRules rs ds)"
    by (rule getRulesForDetections_firstSeen)
  have 2: "distinct (map pattern (getRulesForDetections rs ds))"
    unfolding 1 using firstSeen_distinct by blast
  have 3: "find (\<lambda>r. pattern r = p) (getRulesForDetections rs ds)
          = find (\<lambda>r. pattern r = p) (candidateRules rs ds)" for p
    unfolding 1 by (simp add: firstSeen_find)
  have 4: "find (\<lambda>r. pattern r = pattern b) (getRulesForDetections rs ds)
        = find (\<lambda>r. pattern r = pattern b) (getRulesForCategory rs c)"
    if c: "c \<in> set (ecosystemsPresent ds)" and b: "b \<in> set (getRulesForCategory rs c)"
      and fresh: "pattern b \<notin> pattern ` set (rulesBefore rs ds c)" for c b
  proof -
    obtain later where split: "candidateRules rs ds
        = rulesBefore rs ds c @ ecosystemRules rs ds c @ later"
      using candidateRules_split[OF c] by blast
    have "\<forall>x \<in> set (rulesBefore rs ds c). pattern x \<noteq> pattern b"
      using fresh by (metis imageI)
    then have s1: "find (\<lambda>r. pattern r = pattern b) (candidateRules rs ds)
        = find (\<lambda>r. pattern r = pattern b) (ecosystemRules rs ds c @ later)"
      unfolding split by (rule find_skip)
    have "\<exists>x \<in> set (getRulesForCategory rs c). pattern x = pattern b"
      using b by blast
    then have s2: "find (\<lambda>r. pattern r = pattern b) (ecosystemRules rs ds c @ later)
        = find (\<lambda>r. pattern r = pattern b) (getRulesForCategory rs c)"
      unfolding ecosystemRules_def append_assoc by (rule find_append_first)
    show ?thesis
      using 3 s1 s2 by simp
  qed
  show ?thesis
    using 1 2 3 4 by blast
qed


text \<open>
  The theorem at the sample catalogue: the base rule \<^verbatim>\<open>.env\<close> of the Node
  ecosystem wins over the rule \<^verbatim>\<open>.env\<close> of its framework \<^verbatim>\<open>nextjs\<close>.
\<close>

theorem C6_rule_merge_witness:
  "getRulesForDetections sampleCatalogue sampleDetections =
     [\<lparr>pattern = ''node_modules/'', severity = Recommended, reason = ''Dependencies''\<rparr>,
      \<lparr>pattern = ''.env'', severity = Critical, reason = ''Secrets''\<rparr>,
      \<lparr>pattern = ''.next/'', severity = Recommended, reason = ''Build output''\<rparr>,
      \<lparr>pattern = ''.env.local'', severity = Recommended, reason = ''Local overrides''\<rparr>,
      \<lparr>pattern = ''__pycache__/'', severity = Recommended, reason = ''Bytecode''\<rparr>] \<and>
   find (\<lambda>r. pattern r = ''.env'') (getRulesForDetections sampleCatalogue sampleDetections)
     = Some \<lparr>pattern = ''.env'', severity = Critical, reason = ''Secrets''\<rparr>"
proof -
  let ?b = "\<lparr>pattern = ''.env'', severity = Critical, reason = ''Secrets''\<rparr>"
  have ev: "getRulesForDetections sampleCatalogue sampleDetections =
     [\<lparr>pattern = ''node_modules/'', severity = Recommended, reason = ''Dependencies''\<rparr>,
      \<lparr>pattern = ''.env'', severity = Critical, reason = ''Secrets''\<rparr>,
      \<lparr>pattern = ''.next/'', severity = Recommended, reason = ''Build output''\<rparr>,
      \<lparr>pattern = ''.env.local'', severity = Recommended, reason = ''Local overrides''\<rparr>,
      \<lparr>pattern = ''__pycache__/'', severity = Recommended, reason = ''Bytecode''\<rparr>]"
    by (simp add: getRulesForDetections_def groupByCategory_def groupStep_def categoryStep_def
        getRulesForCategory_def getFrameworkRules_def sampleCatalogue_def sampleDetections_def)
  have c: "Node \<in> set (ecosystemsPresent sampleDetections)"
    by (simp add: ecosystemsPresent_def sampleDetections_def)
  have b: "?b \<in> set (getRulesForCategory sampleCatalogue Node)"
    by (simp add: getRulesForCategory_def sampleCatalogue_def)
  have fresh: "pattern ?b \<notin> pattern ` set (rulesBefore sampleCatalogue sampleDetections Node)"
    by (simp add: rulesBefore_def ecosystemsPresent_def sampleDetections_def)
  have "find (\<lambda>r. pattern r = pattern ?b) (getRulesForDetections sampleCatalogue sampleDetections)
      = find (\<lambda>r. pattern r = pattern ?b) (getRulesForCategory sampleCatalogue Node)"
    using C6_rule_merge [of sampleCatalogue sampleDetections] c b fresh by blast
  then have "find (\<lambda>r. pattern r = ''.env'') (getRulesForDetections sampleCatalogue sampleDetections)
      = Some ?b"
    by (simp add: getRulesForCategory_def sampleCatalogue_def)
  then show ?thesis
    using ev by simp
qed

text \<open>
  Claim C6 as stated fails across ecosystems: the rule \<^verbatim>\<open>.env.local\<close> of the
  framework \<^verbatim>\<open>nextjs\<close>, emitted with the Node ecosystem, wins over the base rule
  \<^verbatim>\<open>.env.local\<close> of the Python ecosystem, which comes later.
\<close>

theorem C6_base_rule_counterexample:
  "\<lparr>pattern = ''.env.local'', severity = Critical, reason = ''Local secrets''\<rparr>
     \<in> set (getRulesForCategory sampleCatalogue Python) \<and>
   \<lparr>pattern = ''.env.local'', severity = Recommended, reason = ''Local overrides''\<rparr>
     \<in> set (getFrameworkRules sampleCatalogue Node ''nextjs'') \<and>
   \<lparr>pattern = ''.env.local'', severity = Recommended, reason = ''Local overrides''\<rparr>
     \<in> set (getRulesForDetections sampleCatalogue sampleDetections) \<and>
   \<lparr>pattern = ''.env.local'', severity = Critical, reason = ''Local secrets''\<rparr>
     \<notin> set (getRulesForDetections sampleCatalogue sampleDetections)"
  by (simp add: getRulesForDetections_def groupByCategory_def groupStep_def categoryStep_def
      getRulesForCategory_def getFrameworkRules_def sampleCatalogue_def sampleDetections_def)

section \<open>Patterns with a star\<close>

lemma replaceAll_char:
  "replaceAll [c] rep s = concat (map (\<lambda>x. if x = c then rep else [x]) s)"
  by (induction s) auto

lemma replaceAll_absent:
  "\<not> str_includes s lit \<Longrightarrow> replaceAll lit rep s = s"
  by (induction s) auto

lemma concat_map_concat_map:
  "concat (map g (concat (map f p))) = concat (map (\<lambda>c. concat (map g (f c))) p)"
  by (induction p) auto

lemma escape_dots_two_stars:
  "str_includes (concat (map (\<lambda>x. if x = CHR ''.'' then [backslash, CHR ''.''] else [x]) p)) ''**''
     \<longleftrightarrow> str_includes p ''**''"
proof (induction p)
  case Nil
  then show ?case by simp
next
  case (Cons x xs)
  let ?esc = "\<lambda>p. concat (map (\<lambda>x. if x = CHR ''.'' then [backslash, CHR ''.''] else [x]) p)"
  have head: "startsWith (?esc xs) ''*'' \<longleftrightarrow> startsWith xs ''*''"
    by (cases xs) (auto simp: backslash_def)
  show ?case
    using Cons head by (auto simp: backslash_def)
qed

lemma RE_globToRegex_chars: "RE_globToRegex p = concat (map RE_globChar p)"
  unfolding RE_globToRegex_def replaceAll_char concat_map_concat_map
  by (rule arg_cong[where f = concat], rule map_cong) (auto simp: RE_globChar_def backslash_def)

lemma CS_globToRegex_chars:
  assumes "\<not> str_includes p ''**''"
  shows "CS_globToRegex p = ''^'' @ concat (map CS_globChar p) @ ''$''"
proof -
  let ?esc = "replaceAll ''.'' [backslash, CHR ''.''] p"
  have "\<not> str_includes ?esc ''**''"
    using assms by (simp add: replaceAll_char escape_dots_two_stars)
  then have "replaceAll ''**'' ''.*'' ?esc = ?esc"
    by (rule replaceAll_absent)
  then have "CS_globToRegex p = ''^'' @ replaceAll ''?'' ''.'' (replaceAll ''*'' ''[^/]*'' ?esc) @ ''$''"
    by (simp add: CS_globToRegex_def)
  also have "replaceAll ''?'' ''.'' (replaceAll ''*'' ''[^/]*'' ?esc) = concat (map CS_globChar p)"
    unfolding replaceAll_char concat_map_concat_map
    by (rule arg_cong[where f = concat], rule map_cong) (auto simp: CS_globChar_def backslash_def)
  finally show ?thesis .
qed

lemma FW_regexPattern_chars:
  assumes "\<not> str_includes p ''**''"
  shows "replaceAll ''*'' ''[^/]*'' (replaceAll ''**'' ''.*'' (replaceAll ''.'' [backslash, CHR ''.''] p))
           = concat (map FW_globChar p)"
proof -
  let ?esc = "replaceAll ''.'' [backslash, CHR ''.''] p"
  have "\<not> str_includes ?esc ''**''"
    using assms by (simp add: replaceAll_char escape_dots_two_stars)
  then have "replaceAll ''**'' ''.*'' ?esc = ?esc"
    by (rule replaceAll_absent)
  moreover have "replaceAll ''*'' ''[^/]*'' ?esc = concat (map FW_globChar p)"
    unfolding replaceAll_char concat_map_concat_map
    by (rule arg_cong[where f = concat], rule map_cong) (auto simp: FW_globChar_def backslash_def)
  ultimately show ?thesis by simp
qed


lemma strip_slash_keeps_star:
  assumes "CHR ''*'' \<in> set p"
  shows "strip_slash p \<noteq> ''.env''"
proof
  assume e: "strip_slash p = ''.env''"
  show False
  proof (cases "endsWith p ''/''")
    case True
    then obtain a where "p = a @ ''/''"
      by (auto simp: endsWith_snoc)
    then show False
      using e assms by (auto simp: strip_slash_def endsWith_snoc)
  next
    case False
    then show False
      using e assms by (auto simp: strip_slash_def)
  qed
qed

lemma segment_items:
  "rx_match_here (map (segItem qm) p @ [Eol]) st s = segmentGlob qm p s"
  by (induction qm p s arbitrary: st rule: segmentGlob.induct) (auto simp: segItem_def)

lemma loose_items:
  "rx_match_here (map looseItem p) st s = looseGlob p s"
  by (induction p s arbitrary: st rule: looseGlob.induct) (auto simp: looseItem_def)

lemma search_Bol_False: "\<not> rx_search (Bol # r) False s"
  by (induction s) auto

lemma test_Bol: "regex_test (Bol # r) s = rx_match_here r True s"
  by (cases s) (auto simp: regex_test_def search_Bol_False)

lemma search_BolOrSlash:
  "rx_search (BolOrSlash # r) st s =
     ((st \<and> rx_match_here r st s) \<or> (\<exists>t \<in> set (afterSlashes s). rx_match_here r False t))"
  by (induction s arbitrary: st) auto

lemma search_loose:
  "rx_search (map looseItem p) st s = (\<exists>t \<in> set (tails s). looseGlob p t)"
  by (induction s arbitrary: st) (auto simp: loose_items)


lemma quantifier_syntax: "quantifier_char c \<Longrightarrow> syntax_char c"
  by (auto simp: quantifier_char_def syntax_char_def)

lemma parse_Nil: "rx_parse [] = Some []"
  by simp

lemma parse_lit:
  assumes "\<not> syntax_char c" and "z = [] \<or> \<not> quantifier_char (hd z)"
  shows "rx_parse (c # z) = map_option ((#) (One (CLit c))) (rx_parse z)"
proof -
  have ne: "c \<noteq> CHR ''^''" "c \<noteq> CHR ''$''" "c \<noteq> CHR ''(''" "c \<noteq> backslash" "c \<noteq> CHR ''.''"
      "c \<noteq> CHR ''[''"
    using assms(1) by (auto simp: syntax_char_def)
  have atom: "rx_atom (c # z) = Some (CLit c, z)"
    using ne assms(1) by simp
  show ?thesis
  proof (cases z)
    case Nil
    then show ?thesis
      using ne atom by (subst rx_parse.simps) (simp del: rx_parse.simps rx_atom.simps add: parse_Nil)
  next
    case (Cons q z')
    then have "\<not> quantifier_char q" "q \<noteq> CHR ''*''"
      using assms(2) by (auto simp: quantifier_char_def)
    then show ?thesis
      using ne atom Cons
      by (subst rx_parse.simps) (simp del: rx_parse.simps rx_atom.simps)
  qed
qed

lemma parse_escaped_dot:
  assumes "z = [] \<or> \<not> quantifier_char (hd z)"
  shows "rx_parse (backslash # CHR ''.'' # z) = map_option ((#) (One (CLit (CHR ''.'')))) (rx_parse z)"
proof -
  have atom: "rx_atom (backslash # CHR ''.'' # z) = Some (CLit (CHR ''.''), z)"
    by (simp add: syntax_char_def)
  have ne: "backslash \<noteq> CHR ''^''" "backslash \<noteq> CHR ''$''" "backslash \<noteq> CHR ''(''"
    by (simp_all add: backslash_def)
  show ?thesis
  proof (cases z)
    case Nil
    then show ?thesis
      using ne atom by (subst rx_parse.simps) (simp del: rx_parse.simps rx_atom.simps add: parse_Nil)
  next
    case (Cons q z')
    then have "\<not> quantifier_char q" "q \<noteq> CHR ''*''"
      using assms by (auto simp: quantifier_char_def)
    then show ?thesis
      using ne atom Cons
      by (subst rx_parse.simps) (simp del: rx_parse.simps rx_atom.simps)
  qed
qed

lemma parse_dot:
  assumes "z = [] \<or> \<not> quantifier_char (hd z)"
  shows "rx_parse (CHR ''.'' # z) = map_option ((#) (One CDot)) (rx_parse z)"
proof -
  have atom: "rx_atom (CHR ''.'' # z) = Some (CDot, z)"
    by (simp add: backslash_def)
  show ?thesis
  proof (cases z)
    case Nil
    then show ?thesis
      using atom by (subst rx_parse.simps) (simp del: rx_parse.simps rx_atom.simps add: parse_Nil)
  next
    case (Cons q z')
    then have "\<not> quantifier_char q" "q \<noteq> CHR ''*''"
      using assms by (auto simp: quantifier_char_def)
    then show ?thesis
      using atom Cons
      by (subst rx_parse.simps) (simp del: rx_parse.simps rx_atom.simps)
  qed
qed

lemma parse_dot_star:
  assumes "z = [] \<or> \<not> quantifier_char (hd z)"
  shows "rx_parse (''.*'' @ z) = map_option ((#) (Many CDot)) (rx_parse z)"
proof -
  have atom: "rx_atom (CHR ''.'' # CHR ''*'' # z) = Some (CDot, CHR ''*'' # z)"
    by (simp add: backslash_def)
  have "rx_parse (CHR ''.'' # CHR ''*'' # z) = map_option ((#) (Many CDot)) (rx_parse z)"
  proof (cases z)
    case Nil
    then show ?thesis
      using atom by (subst rx_parse.simps) (simp del: rx_parse.simps rx_atom.simps add: parse_Nil)
  next
    case (Cons q z')
    then have "\<not> quantifier_char q"
      using assms by auto
    then show ?thesis
      using atom Cons
      by (subst rx_parse.simps) (simp del: rx_parse.simps rx_atom.simps)
  qed
  then show ?thesis
    by (simp del: rx_parse.simps)
qed

lemma parse_notslash_star:
  assumes "z = [] \<or> \<not> quantifier_char (hd z)"
  shows "rx_parse (''[^/]*'' @ z) = map_option ((#) (Many CNotSlash)) (rx_parse z)"
proof -
  let ?s = "CHR ''['' # CHR ''^'' # CHR ''/'' # CHR '']'' # CHR ''*'' # z"
  have atom: "rx_atom ?s = Some (CNotSlash, CHR ''*'' # z)"
    by (simp add: backslash_def)
  have "rx_parse ?s = map_option ((#) (Many CNotSlash)) (rx_parse z)"
  proof (cases z)
    case Nil
    then show ?thesis
      using atom by (subst rx_parse.simps) (simp del: rx_parse.simps rx_atom.simps add: parse_Nil)
  next
    case (Cons q z')
    then have "\<not> quantifier_char q"
      using assms by auto
    then show ?thesis
      using atom Cons
      by (subst rx_parse.simps) (simp del: rx_parse.simps rx_atom.simps)
  qed
  then show ?thesis
    by (simp del: rx_parse.simps)
qed


lemma parse_seg_step:
  assumes "\<not> syntax_char c \<or> c = CHR ''.'' \<or> c = CHR ''*'' \<or> (qm \<and> c = CHR ''?'')"
    and z: "z = [] \<or> \<not> quantifier_char (hd z)"
  shows "rx_parse (segChar qm c @ z) = map_option ((#) (segItem qm c)) (rx_parse z)"
proof -
  consider (dot) "c = CHR ''.''" | (star) "c = CHR ''*''" | (qm) "qm" "c = CHR ''?''"
    | (lit) "\<not> syntax_char c" "c \<noteq> CHR ''.''" "c \<noteq> CHR ''*''" "c \<noteq> CHR ''?''"
    using assms(1) by (auto simp: syntax_char_def)
  then show ?thesis
  proof cases
    case dot
    then show ?thesis
      using parse_escaped_dot[OF z]
      by (simp add: segChar_def CS_globChar_def FW_globChar_def segItem_def)
  next
    case star
    then show ?thesis
      using parse_notslash_star[OF z]
      by (simp add: segChar_def CS_globChar_def FW_globChar_def segItem_def)
  next
    case qm
    then show ?thesis
      using parse_dot[OF z]
      by (simp add: segChar_def CS_globChar_def segItem_def)
  next
    case lit
    then show ?thesis
      using parse_lit[OF lit(1) z]
      by (simp add: segChar_def CS_globChar_def FW_globChar_def segItem_def)
  qed
qed

lemma parse_loose_step:
  assumes "\<not> syntax_char c \<or> c = CHR ''.'' \<or> c = CHR ''*'' \<or> c = CHR ''?''"
    and z: "z = [] \<or> \<not> quantifier_char (hd z)"
  shows "rx_parse (RE_globChar c @ z) = map_option ((#) (looseItem c)) (rx_parse z)"
proof -
  consider (dot) "c = CHR ''.''" | (star) "c = CHR ''*''" | (qm) "c = CHR ''?''"
    | (lit) "\<not> syntax_char c" "c \<noteq> CHR ''.''" "c \<noteq> CHR ''*''" "c \<noteq> CHR ''?''"
    using assms(1) by (auto simp: syntax_char_def)
  then show ?thesis
  proof cases
    case dot
    then show ?thesis
      using parse_escaped_dot[OF z] by (simp add: RE_globChar_def looseItem_def)
  next
    case star
    then show ?thesis
      using parse_dot_star[OF z] by (simp add: RE_globChar_def looseItem_def)
  next
    case qm
    then show ?thesis
      using parse_dot[OF z] by (simp add: RE_globChar_def looseItem_def)
  next
    case lit
    then show ?thesis
      using parse_lit[OF lit(1) z] by (simp add: RE_globChar_def looseItem_def)
  qed
qed

lemma seg_head:
  assumes "globChars qm p" "z = [] \<or> \<not> quantifier_char (hd z)"
  shows "concat (map (segChar qm) p) @ z = [] \<or> \<not> quantifier_char (hd (concat (map (segChar qm) p) @ z))"
proof (cases p)
  case Nil
  then show ?thesis using assms(2) by simp
next
  case (Cons c p')
  then have "\<not> syntax_char c \<or> c = CHR ''.'' \<or> c = CHR ''*'' \<or> (qm \<and> c = CHR ''?'')"
    using assms(1) by (simp add: globChars_def)
  then have "\<not> quantifier_char (hd (segChar qm c))" "segChar qm c \<noteq> []"
    using quantifier_syntax[of c]
    by (auto simp: segChar_def CS_globChar_def FW_globChar_def quantifier_char_def backslash_def)
  then show ?thesis
    using Cons by simp
qed

lemma loose_head:
  assumes "globChars True p" "z = [] \<or> \<not> quantifier_char (hd z)"
  shows "concat (map RE_globChar p) @ z = [] \<or> \<not> quantifier_char (hd (concat (map RE_globChar p) @ z))"
proof (cases p)
  case Nil
  then show ?thesis using assms(2) by simp
next
  case (Cons c p')
  then have "\<not> syntax_char c \<or> c = CHR ''.'' \<or> c = CHR ''*'' \<or> c = CHR ''?''"
    using assms(1) by (simp add: globChars_def)
  then have "\<not> quantifier_char (hd (RE_globChar c))" "RE_globChar c \<noteq> []"
    using quantifier_syntax[of c]
    by (auto simp: RE_globChar_def quantifier_char_def backslash_def)
  then show ?thesis
    using Cons by simp
qed

lemma parse_seg:
  assumes "globChars qm p" "z = [] \<or> \<not> quantifier_char (hd z)"
  shows "rx_parse (concat (map (segChar qm) p) @ z) = map_option ((@) (map (segItem qm) p)) (rx_parse z)"
  using assms
proof (induction p)
  case Nil
  then show ?case by (simp add: option.map_ident del: rx_parse.simps)
next
  case (Cons c p)
  have c: "\<not> syntax_char c \<or> c = CHR ''.'' \<or> c = CHR ''*'' \<or> (qm \<and> c = CHR ''?'')"
    and p: "globChars qm p"
    using Cons.prems(1) by (simp_all add: globChars_def)
  have h: "concat (map (segChar qm) p) @ z = [] \<or> \<not> quantifier_char (hd (concat (map (segChar qm) p) @ z))"
    using p Cons.prems(2) by (rule seg_head)
  have "rx_parse (concat (map (segChar qm) (c # p)) @ z)
      = rx_parse (segChar qm c @ (concat (map (segChar qm) p) @ z))"
    by simp
  also have "\<dots> = map_option ((#) (segItem qm c)) (rx_parse (concat (map (segChar qm) p) @ z))"
    using c h by (rule parse_seg_step)
  also have "\<dots> = map_option ((#) (segItem qm c)) (map_option ((@) (map (segItem qm) p)) (rx_parse z))"
    using Cons.IH[OF p Cons.prems(2)] by simp
  also have "\<dots> = map_option ((@) (map (segItem qm) (c # p))) (rx_parse z)"
    by (cases "rx_parse z") (simp_all del: rx_parse.simps)
  finally show ?case .
qed

lemma parse_loose:
  assumes "globChars True p" "z = [] \<or> \<not> quantifier_char (hd z)"
  shows "rx_parse (concat (map RE_globChar p) @ z) = map_option ((@) (map looseItem p)) (rx_parse z)"
  using assms
proof (induction p)
  case Nil
  then show ?case by (simp add: option.map_ident del: rx_parse.simps)
next
  case (Cons c p)
  have c: "\<not> syntax_char c \<or> c = CHR ''.'' \<or> c = CHR ''*'' \<or> c = CHR ''?''"
    and p: "globChars True p"
    using Cons.prems(1) by (simp_all add: globChars_def)
  have h: "concat (map RE_globChar p) @ z = [] \<or> \<not> quantifier_char (hd (concat (map RE_globChar p) @ z))"
    using p Cons.prems(2) by (rule loose_head)
  have "rx_parse (concat (map RE_globChar (c # p)) @ z)
      = rx_parse (RE_globChar c @ (concat (map RE_globChar p) @ z))"
    by simp
  also have "\<dots> = map_option ((#) (looseItem c)) (rx_parse (concat (map RE_globChar p) @ z))"
    using c h by (rule parse_loose_step)
  also have "\<dots> = map_option ((#) (looseItem c)) (map_option ((@) (map looseItem p)) (rx_parse z))"
    using Cons.IH[OF p Cons.prems(2)] by simp
  also have "\<dots> = map_option ((@) (map looseItem (c # p))) (rx_parse z)"
    by (cases "rx_parse z") (simp_all del: rx_parse.simps)
  finally show ?case .
qed


lemma parse_scanner_regex:
  assumes "globChars True p"
  shows "rx_parse (''^'' @ concat (map CS_globChar p) @ ''$'') = Some (Bol # map (segItem True) p @ [Eol])"
proof -
  have e: "rx_parse ''$'' = Some [Eol]"
    by simp
  have "rx_parse (concat (map (segChar True) p) @ ''$'') = Some (map (segItem True) p @ [Eol])"
    using parse_seg[OF assms, of "''$''"] e by (simp add: quantifier_char_def del: rx_parse.simps)
  moreover have "segChar True = CS_globChar"
    by (intro ext) (simp add: segChar_def)
  ultimately have "rx_parse (concat (map CS_globChar p) @ ''$'') = Some (map (segItem True) p @ [Eol])"
    by simp
  then show ?thesis
    by (subst append_Cons, subst rx_parse.simps) (simp del: rx_parse.simps)
qed

lemma parse_watcher_regex:
  assumes "globChars False p"
  shows "rx_parse (''(^|/)'' @ concat (map FW_globChar p) @ ''$'')
           = Some (BolOrSlash # map (segItem False) p @ [Eol])"
proof -
  have e: "rx_parse ''$'' = Some [Eol]"
    by simp
  have "rx_parse (concat (map (segChar False) p) @ ''$'') = Some (map (segItem False) p @ [Eol])"
    using parse_seg[OF assms, of "''$''"] e by (simp add: quantifier_char_def del: rx_parse.simps)
  moreover have "segChar False = FW_globChar"
    by (intro ext) (simp add: segChar_def)
  ultimately have "rx_parse (concat (map FW_globChar p) @ ''$'') = Some (map (segItem False) p @ [Eol])"
    by simp
  then show ?thesis
    by (subst append_Cons, subst rx_parse.simps) (simp del: rx_parse.simps)
qed

lemma parse_engine_regex:
  assumes "globChars True p"
  shows "rx_parse (concat (map RE_globChar p)) = Some (map looseItem p)"
  using parse_loose[OF assms, of "[]"] by (simp del: rx_parse.simps add: parse_Nil)

lemma test_scanner_regex:
  "regex_test (Bol # map (segItem True) p @ [Eol]) s = segmentGlob True p s"
  by (simp add: test_Bol segment_items)

lemma test_watcher_regex:
  "regex_test (BolOrSlash # map (segItem False) p @ [Eol]) s
     = (\<exists>t \<in> set (s # afterSlashes s). segmentGlob False p t)"
  by (simp add: regex_test_def search_BolOrSlash segment_items)

lemma test_engine_regex:
  "regex_test (map looseItem p) s = (\<exists>t \<in> set (tails s). looseGlob p t)"
  by (simp add: regex_test_def search_loose)


lemma escape_head:
  "startsWith (concat (map (\<lambda>x. if x = CHR ''.'' then [backslash, CHR ''.''] else [x]) p)) ''*''
     \<longleftrightarrow> startsWith p ''*''"
  by (cases p) (auto simp: backslash_def)

lemma two_stars_step:
  fixes esc
  defines "esc \<equiv> \<lambda>p. concat (map (\<lambda>x. if x = CHR ''.'' then [backslash, CHR ''.''] else [x]) p)"
  shows "replaceAll ''**'' ''.*'' (esc (c # p)) =
           (if c = CHR ''*'' \<and> startsWith p ''*'' then ''.*'' @ replaceAll ''**'' ''.*'' (esc (tl p))
            else esc [c] @ replaceAll ''**'' ''.*'' (esc p))"
proof -
  have head: "startsWith (esc p) ''*'' \<longleftrightarrow> startsWith p ''*''"
    unfolding esc_def by (rule escape_head)
  show ?thesis
  proof (cases "c = CHR ''*''")
    case True
    show ?thesis
    proof (cases "startsWith p ''*''")
      case True
      then obtain q where "p = CHR ''*'' # q"
        by (cases p) auto
      then show ?thesis
        using \<open>c = CHR ''*''\<close> by (simp add: esc_def)
    next
      case False
      then have "\<not> startsWith (esc p) ''*''"
        using head by simp
      then have "\<not> startsWith (CHR ''*'' # esc p) ''**''"
        by (cases "esc p") auto
      then show ?thesis
        using True False by (simp add: esc_def)
    qed
  next
    case False
    then show ?thesis
      by (auto simp: esc_def backslash_def)
  qed
qed

lemma star_step: "replaceAll ''*'' rep (a @ b) = replaceAll ''*'' rep a @ replaceAll ''*'' rep b"
  by (simp add: replaceAll_char)

lemma qm_step: "replaceAll ''?'' rep (a @ b) = replaceAll ''?'' rep a @ replaceAll ''?'' rep b"
  by (simp add: replaceAll_char)

lemma seg_body:
  "segBody qm p =
     (if qm
      then replaceAll ''?'' ''.''
             (replaceAll ''*'' ''[^/]*''
               (replaceAll ''**'' ''.*'' (replaceAll ''.'' [backslash, CHR ''.''] p)))
      else replaceAll ''*'' ''[^/]*''
             (replaceAll ''**'' ''.*'' (replaceAll ''.'' [backslash, CHR ''.''] p)))"
proof (induction qm p rule: segBody.induct)
  case (1 qm)
  then show ?case by simp
next
  case (2 qm c)
  then show ?case
    by (simp add: replaceAll_char segChar_def FW_globChar_def CS_globChar_def backslash_def)
next
  case (3 qm c d cs)
  show ?case
  proof (cases "c = CHR ''*'' \<and> d = CHR ''*''")
    case True
    then show ?thesis
      using 3(1) unfolding replaceAll_char[of "CHR ''.''"] two_stars_step star_step qm_step
      by (simp add: replaceAll_char)
  next
    case False
    then show ?thesis
      using 3(2) unfolding replaceAll_char[of "CHR ''.''"] two_stars_step star_step qm_step
      by (auto simp: replaceAll_char segChar_def FW_globChar_def CS_globChar_def backslash_def)
  qed
qed

lemma segBody_chars:
  "\<not> str_includes p ''**'' \<Longrightarrow> segBody qm p = concat (map (segChar qm) p)"
proof (induction qm p rule: segBody.induct)
  case (1 qm)
  then show ?case by simp
next
  case (2 qm c)
  then show ?case by simp
next
  case (3 qm c d cs)
  have "\<not> (c = CHR ''*'' \<and> d = CHR ''*'')" "\<not> str_includes (d # cs) ''**''"
    using 3(3) by auto
  then show ?case
    using 3(2) by auto
qed

text \<open>
  Claim C3, as the code has it. For a pattern with a star, each matcher returns
  true when one of its earlier rules fires; otherwise it compiles the pattern, with
  its trailing slash if it has one, to a regular expression and returns whether
  the expression matches the base name or the path. In the expression every dot is
  escaped. The watcher anchors the expression at the end and at the start or after
  a slash, the scanner at both ends, the rule engine not at all. For a pattern
  without two adjacent stars, the watcher turns each star into \<^verbatim>\<open>[^/]*\<close>, the
  scanner turns each star into \<^verbatim>\<open>[^/]*\<close> and each question mark into \<^verbatim>\<open>.\<close>; the
  rule engine turns every star of any pattern into \<^verbatim>\<open>.*\<close> and each question mark
  into \<^verbatim>\<open>.\<close>. So, for patterns of plain characters, dots, stars and question
  marks: the scanner's star stays within one path segment and its pattern must
  match the whole base name or the whole path; the watcher's star stays within one
  segment and its pattern must match the input, or the part of it after one of its
  slashes, to the end; the rule engine's star crosses slashes and its pattern must
  match somewhere in the input. Where the expression is outside the fragment that
  \<open>rx_parse\<close> reads, both sides of the first three equations are \<open>None\<close>.
\<close>

theorem C3_glob_branch:
  assumes "CHR ''*'' \<in> set p"
  shows "FW_matchesPattern fullPath fileName p =
           (if fileName = strip_slash p \<or> str_includes fullPath (''/'' @ strip_slash p @ ''/'')
               \<or> startsWith fullPath (strip_slash p @ ''/'')
            then Some True
            else map_option (\<lambda>regex. regex_test regex fullPath \<or> regex_test regex fileName)
                   (rx_parse (''(^|/)'' @ segBody False p @ ''$''))) \<and>
         CS_matchesPattern fullPath fileName p =
           (if fileName = strip_slash p \<or> fullPath = strip_slash p
               \<or> startsWith fullPath (strip_slash p @ ''/'')
               \<or> str_includes fullPath (''/'' @ strip_slash p @ ''/'')
            then Some True
            else map_option (\<lambda>regex. regex_test regex fileName \<or> regex_test regex fullPath)
                   (rx_parse (''^'' @ segBody True p @ ''$''))) \<and>
         RE_matchesPattern fullPath fileName p =
           (if fileName = strip_slash p \<or> str_includes fullPath (strip_slash p) then Some True
            else map_option (\<lambda>regex. regex_test regex fileName \<or> regex_test regex fullPath)
                   (rx_parse (concat (map RE_globChar p)))) \<and>
         (\<not> str_includes p ''**'' \<longrightarrow>
            segBody False p = concat (map FW_globChar p) \<and>
            segBody True p = concat (map CS_globChar p)) \<and>
         (\<not> str_includes p ''**'' \<and> globChars False p \<longrightarrow>
            FW_matchesPattern fullPath fileName p =
              Some (fileName = strip_slash p \<or> str_includes fullPath (''/'' @ strip_slash p @ ''/'')
                    \<or> startsWith fullPath (strip_slash p @ ''/'')
                    \<or> (\<exists>t \<in> set (fullPath # afterSlashes fullPath). segmentGlob False p t)
                    \<or> (\<exists>t \<in> set (fileName # afterSlashes fileName). segmentGlob False p t))) \<and>
         (\<not> str_includes p ''**'' \<and> globChars True p \<longrightarrow>
            CS_matchesPattern fullPath fileName p =
              Some (fileName = strip_slash p \<or> fullPath = strip_slash p
                    \<or> startsWith fullPath (strip_slash p @ ''/'')
                    \<or> str_includes fullPath (''/'' @ strip_slash p @ ''/'')
                    \<or> segmentGlob True p fileName \<or> segmentGlob True p fullPath)) \<and>
         (globChars True p \<longrightarrow>
            RE_matchesPattern fullPath fileName p =
              Some (fileName = strip_slash p \<or> str_includes fullPath (strip_slash p)
                    \<or> (\<exists>t \<in> set (tails fileName). looseGlob p t)
                    \<or> (\<exists>t \<in> set (tails fullPath). looseGlob p t)))"
proof -
  have star: "str_includes p ''*''"
    using assms by (simp add: str_includes_char)
  have noenv: "strip_slash p \<noteq> ''.env''"
    using assms by (rule strip_slash_keeps_star)
  have fwBody: "replaceAll ''*'' ''[^/]*''
      (replaceAll ''**'' ''.*'' (replaceAll ''.'' [backslash, CHR ''.''] p)) = segBody False p"
    by (simp add: seg_body[of False])
  have csBody: "CS_globToRegex p = ''^'' @ segBody True p @ ''$''"
    by (simp add: CS_globToRegex_def seg_body[of True])
  have fw: "FW_matchesPattern fullPath fileName p =
              (if fileName = strip_slash p \<or> str_includes fullPath (''/'' @ strip_slash p @ ''/'')
                  \<or> startsWith fullPath (strip_slash p @ ''/'')
               then Some True
               else map_option (\<lambda>regex. regex_test regex fullPath \<or> regex_test regex fileName)
                      (rx_parse (''(^|/)'' @ segBody False p @ ''$'')))"
    unfolding FW_matchesPattern_def Let_def fwBody
    using star noenv by (auto split: option.splits)
  have cs: "CS_matchesPattern fullPath fileName p =
              (if fileName = strip_slash p \<or> fullPath = strip_slash p
                  \<or> startsWith fullPath (strip_slash p @ ''/'')
                  \<or> str_includes fullPath (''/'' @ strip_slash p @ ''/'')
               then Some True
               else map_option (\<lambda>regex. regex_test regex fileName \<or> regex_test regex fullPath)
                      (rx_parse (''^'' @ segBody True p @ ''$'')))"
    unfolding CS_matchesPattern_def Let_def csBody
    using star by (auto split: option.splits)
  have re: "RE_matchesPattern fullPath fileName p =
           (if fileName = strip_slash p \<or> str_includes fullPath (strip_slash p) then Some True
            else map_option (\<lambda>regex. regex_test regex fileName \<or> regex_test regex fullPath)
                   (rx_parse (concat (map RE_globChar p))))"
    unfolding RE_matchesPattern_def Let_def RE_globToRegex_chars
    using star by (auto split: option.splits)
  have chars: "segBody False p = concat (map FW_globChar p) \<and>
               segBody True p = concat (map CS_globChar p)"
    if "\<not> str_includes p ''**''"
    using segBody_chars[OF that, of False] segBody_chars[OF that, of True]
    by (simp add: segChar_def[abs_def])
  have fw2: "FW_matchesPattern fullPath fileName p =
              Some (fileName = strip_slash p \<or> str_includes fullPath (''/'' @ strip_slash p @ ''/'')
                    \<or> startsWith fullPath (strip_slash p @ ''/'')
                    \<or> (\<exists>t \<in> set (fullPath # afterSlashes fullPath). segmentGlob False p t)
                    \<or> (\<exists>t \<in> set (fileName # afterSlashes fileName). segmentGlob False p t))"
    if "\<not> str_includes p ''**''" "globChars False p"
  proof -
    have e: "rx_parse (''(^|/)'' @ segBody False p @ ''$'')
               = Some (BolOrSlash # map (segItem False) p @ [Eol])"
      using chars[OF that(1)] parse_watcher_regex[OF that(2)] by (simp del: rx_parse.simps)
    show ?thesis
      unfolding fw e option.map test_watcher_regex by auto
  qed
  have cs2: "CS_matchesPattern fullPath fileName p =
              Some (fileName = strip_slash p \<or> fullPath = strip_slash p
                    \<or> startsWith fullPath (strip_slash p @ ''/'')
                    \<or> str_includes fullPath (''/'' @ strip_slash p @ ''/'')
                    \<or> segmentGlob True p fileName \<or> segmentGlob True p fullPath)"
    if "\<not> str_includes p ''**''" "globChars True p"
  proof -
    have e: "rx_parse (''^'' @ segBody True p @ ''$'') = Some (Bol # map (segItem True) p @ [Eol])"
      using chars[OF that(1)] parse_scanner_regex[OF that(2)] by (simp del: rx_parse.simps)
    show ?thesis
      unfolding cs e option.map test_scanner_regex by auto
  qed
  have re2: "RE_matchesPattern fullPath fileName p =
              Some (fileName = strip_slash p \<or> str_includes fullPath (strip_slash p)
                    \<or> (\<exists>t \<in> set (tails fileName). looseGlob p t)
                    \<or> (\<exists>t \<in> set (tails fullPath). looseGlob p t))"
    if "globChars True p"
    unfolding re parse_engine_regex[OF that] option.map test_engine_regex
    by auto
  show ?thesis
    using fw cs re chars fw2 cs2 re2 by blast
qed

text \<open>The theorem at the pattern \<^verbatim>\<open>*.log\<close>.\<close>

theorem C3_glob_branch_witness:
  "FW_matchesPattern ''logs/app.log'' ''app.log'' ''*.log'' = Some True \<and>
   CS_matchesPattern ''logs/app.log'' ''app.log'' ''*.log'' = Some True \<and>
   RE_matchesPattern ''logs/app.log'' ''app.log'' ''*.log'' = Some True \<and>
   CS_matchesPattern ''logs/app.logs'' ''app.logs'' ''*.log'' = Some False"
proof -
  have star: "CHR ''*'' \<in> set ''*.log''"
    by simp
  have one: "\<not> str_includes ''*.log'' ''**''"
    by simp
  have chars: "globChars True ''*.log''" "globChars False ''*.log''"
    by (simp_all add: globChars_def syntax_char_def backslash_def)
  have "FW_matchesPattern ''logs/app.log'' ''app.log'' ''*.log'' =
      Some (''app.log'' = strip_slash ''*.log''
            \<or> str_includes ''logs/app.log'' (''/'' @ strip_slash ''*.log'' @ ''/'')
            \<or> startsWith ''logs/app.log'' (strip_slash ''*.log'' @ ''/'')
            \<or> (\<exists>t \<in> set (''logs/app.log'' # afterSlashes ''logs/app.log''). segmentGlob False ''*.log'' t)
            \<or> (\<exists>t \<in> set (''app.log'' # afterSlashes ''app.log''). segmentGlob False ''*.log'' t))"
    using C3_glob_branch [OF star, of "''logs/app.log''" "''app.log''"] one chars by blast
  then have fw: "FW_matchesPattern ''logs/app.log'' ''app.log'' ''*.log'' = Some True"
    by (simp add: strip_slash_def endsWith_def)
  have "CS_matchesPattern ''logs/app.log'' ''app.log'' ''*.log'' =
      Some (''app.log'' = strip_slash ''*.log'' \<or> ''logs/app.log'' = strip_slash ''*.log''
            \<or> startsWith ''logs/app.log'' (strip_slash ''*.log'' @ ''/'')
            \<or> str_includes ''logs/app.log'' (''/'' @ strip_slash ''*.log'' @ ''/'')
            \<or> segmentGlob True ''*.log'' ''app.log'' \<or> segmentGlob True ''*.log'' ''logs/app.log'')"
    using C3_glob_branch [OF star, of "''logs/app.log''" "''app.log''"] one chars by blast
  then have cs: "CS_matchesPattern ''logs/app.log'' ''app.log'' ''*.log'' = Some True"
    by (simp add: strip_slash_def endsWith_def)
  have "RE_matchesPattern ''logs/app.log'' ''app.log'' ''*.log'' =
      Some (''app.log'' = strip_slash ''*.log'' \<or> str_includes ''logs/app.log'' (strip_slash ''*.log'')
            \<or> (\<exists>t \<in> set (tails ''app.log''). looseGlob ''*.log'' t)
            \<or> (\<exists>t \<in> set (tails ''logs/app.log''). looseGlob ''*.log'' t))"
    using C3_glob_branch [OF star, of "''logs/app.log''" "''app.log''"] chars by blast
  then have re: "RE_matchesPattern ''logs/app.log'' ''app.log'' ''*.log'' = Some True"
    by (simp add: strip_slash_def endsWith_def line_terminator_def)
  have "CS_matchesPattern ''logs/app.logs'' ''app.logs'' ''*.log'' =
      Some (''app.logs'' = strip_slash ''*.log'' \<or> ''logs/app.logs'' = strip_slash ''*.log''
            \<or> startsWith ''logs/app.logs'' (strip_slash ''*.log'' @ ''/'')
            \<or> str_includes ''logs/app.logs'' (''/'' @ strip_slash ''*.log'' @ ''/'')
            \<or> segmentGlob True ''*.log'' ''app.logs'' \<or> segmentGlob True ''*.log'' ''logs/app.logs'')"
    using C3_glob_branch [OF star, of "''logs/app.logs''" "''app.logs''"] one chars by blast
  then have cs': "CS_matchesPattern ''logs/app.logs'' ''app.logs'' ''*.log'' = Some False"
    by (simp add: strip_slash_def endsWith_def)
  show ?thesis
    using fw cs re cs' by simp
qed

text \<open>
  Claim C3 as stated fails: the watcher's expression matches after a slash inside
  the path, and the rule engine's star crosses slashes and its expression matches
  a part of the input, where the anchored expression of the claim matches neither
  the base name nor the path.
\<close>

theorem C3_counterexample:
  "FW_matchesPattern ''a/b/x.log'' ''x.log'' ''b/*.log'' = Some True \<and>
   spec_glob_matches ''a/b/x.log'' ''x.log'' ''b/*.log'' = Some False \<and>
   RE_matchesPattern ''a/b/c'' ''c'' ''a*c'' = Some True \<and>
   spec_glob_matches ''a/b/c'' ''c'' ''a*c'' = Some False \<and>
   RE_matchesPattern ''app.logs'' ''app.logs'' ''*.log'' = Some True \<and>
   spec_glob_matches ''app.logs'' ''app.logs'' ''*.log'' = Some False"
  by (simp add: FW_matchesPattern_def RE_matchesPattern_def RE_globToRegex_def spec_glob_matches_def
      spec_globToRegex_def strip_slash_def endsWith_def
      backslash_def syntax_char_def quantifier_char_def line_terminator_def regex_test_def)

text \<open>
  Two adjacent stars. The scanner and the watcher replace them by \<^verbatim>\<open>.*\<close> and then
  replace the star of \<^verbatim>\<open>.*\<close> by \<^verbatim>\<open>[^/]*\<close>: where the pattern has \<^verbatim>\<open>**\<close>, the
  expression has \<^verbatim>\<open>.[^/]*\<close>, which does not cross a slash after its first
  character.
\<close>

lemma two_stars_translation:
  "CS_globToRegex ''**/c'' = ''^.[^/]*/c$'' \<and>
   CS_matchesPattern ''a/b/c'' ''c'' ''**/c'' = Some False \<and>
   FW_matchesPattern ''a/x/y/c'' ''c'' ''a/**/c'' = Some False \<and>
   spec_glob_matches ''a/b/c'' ''c'' ''**/c'' = Some True"
  by (simp add: CS_globToRegex_def CS_matchesPattern_def FW_matchesPattern_def spec_glob_matches_def
      spec_globToRegex_def strip_slash_def endsWith_def backslash_def syntax_char_def
      quantifier_char_def line_terminator_def regex_test_def)

text \<open>
  A pattern with a bracket expression: \<^verbatim>\<open>*.py[cod]\<close> becomes \<^verbatim>\<open>^[^/]*\.py[cod]$\<close> in
  the scanner.
\<close>

lemma bracket_translation:
  "CS_globToRegex ''*.py[cod]'' = ''^[^/]*'' @ [backslash] @ ''.py[cod]$'' \<and>
   CS_matchesPattern ''pkg/mod.pyc'' ''mod.pyc'' ''*.py[cod]'' = Some True \<and>
   CS_matchesPattern ''pkg/mod.pyx'' ''mod.pyx'' ''*.py[cod]'' = Some False \<and>
   FW_matchesPattern ''pkg/mod.pyo'' ''mod.pyo'' ''*.py[cod]'' = Some True \<and>
   RE_matchesPattern ''pkg/.vimrc.swp'' ''.vimrc.swp'' ''*.sw[a-p]'' = Some True"
  by (simp add: CS_globToRegex_def CS_matchesPattern_def FW_matchesPattern_def RE_matchesPattern_def
      RE_globToRegex_def strip_slash_def endsWith_def backslash_def syntax_char_def
      quantifier_char_def line_terminator_def regex_test_def rx_bracket_def escapable_def
      in_range_def Let_def)

end
